theory Spec2Isabelle
  imports Main "HOL-Library.AList" "HOL-Library.Sublist" "HOL-Library.Char_ord"
    "HOL-Library.List_Lexorder"
begin

section \<open>The asset manifest of the compiler: data model\<close>

text \<open>
  Source: \<^verbatim>\<open>packages/remix-dev/compiler/manifest.ts\<close>.

  A JavaScript object used as a dictionary is an association list in the object's own
  property order (the order \<^verbatim>\<open>for ... in\<close>, \<^verbatim>\<open>Object.keys\<close> and
  \<^verbatim>\<open>JSON.stringify\<close> follow); \<open>map_of\<close> is the property read, and a write to an
  existing key keeps the key's place. Strings are byte strings. Keys are taken not to
  be array indices (which an object enumerates first) and not to name a member of
  \<^verbatim>\<open>Object.prototype\<close>, so that keys are enumerated in the order they were added and a
  read of a key that the object does not own yields \<^verbatim>\<open>undefined\<close>.
\<close>

text \<open>
  What a call can throw: the TypeError of reading a property of \<^verbatim>\<open>undefined\<close>, the
  error of \<^verbatim>\<open>invariant\<close> with its message, a failure of the source-export inspector, and
  the host's refusal to write into a directory that does not exist.
\<close>

datatype error =
    TypeError
  | InvariantError string
  | ExportsError string
  | ENOENT

text \<open>
  An entry of \<^verbatim>\<open>Manifest["routes"]\<close>, as \<^verbatim>\<open>create\<close> writes it (lines 76--88).
  An optional field that is \<^verbatim>\<open>undefined\<close> is \<open>None\<close>.
\<close>

record route =
  id_r :: string
  parentId :: "string option"
  path :: "string option"
  index :: "bool option"
  caseSensitive :: "bool option"
  module :: string
  imports_r :: "string list option"
  hasAction :: bool
  hasLoader :: bool
  hasCatchBoundary :: bool
  hasErrorBoundary :: bool

type_synonym routes = "(string \<times> route) list"

type_synonym ImportsCache = "string \<rightharpoonup> string list"

text \<open>
  The result of a call: \<open>None\<close> when the recursion is deeper than the fuel given,
  \<open>Some (Inl e)\<close> when it throws \<open>e\<close>, \<open>Some (Inr v)\<close> when it returns \<open>v\<close>.
\<close>

type_synonym 'a result = "(error + 'a) option"

section \<open>The route-import optimizer\<close>

text \<open>
  \<^verbatim>\<open>(route.imports || [])\<close> for the route object stored under \<open>routeId\<close>: an array is
  truthy even when empty, so only \<^verbatim>\<open>undefined\<close> is replaced.
\<close>

definition imports_or_empty :: "routes \<Rightarrow> string \<Rightarrow> string list" where
  "imports_or_empty routes routeId =
     (case map_of routes routeId of
        None \<Rightarrow> []
      | Some route \<Rightarrow> (case imports_r route of None \<Rightarrow> [] | Some urls \<Rightarrow> urls))"

text \<open>
  \<^verbatim>\<open>route.imports = routeImports.length > 0 ? routeImports : undefined\<close>: a write to
  the one object stored under \<open>routeId\<close>.
\<close>

definition set_imports :: "string \<Rightarrow> string list \<Rightarrow> routes \<Rightarrow> routes" where
  "set_imports routeId routeImports routes =
     AList.map_entry routeId
       (\<lambda>route. route\<lparr>imports_r := (if length routeImports > 0 then Some routeImports else None)\<rparr>)
       routes"

text \<open>
  \<^verbatim>\<open>optimizeRouteImports\<close> (lines 152--180). The two objects it mutates, \<open>routes\<close>
  and \<open>importsCache\<close>, are passed in and returned. \<^verbatim>\<open>if (importsCache[routeId])\<close>
  holds exactly when the key is present (the cache has a null prototype and its values
  are arrays); \<^verbatim>\<open>if (route.parentId)\<close> holds when the parent id is a non-empty
  string; \<^verbatim>\<open>route.parentId\<close> on a route that is missing throws a TypeError.
  The variable \<^verbatim>\<open>route\<close> refers to the object stored under \<open>routeId\<close>: its imports are
  read after the recursive call, from the routes as that call left them, and written
  back to the same object. The first argument bounds the depth of the recursion.
\<close>

fun optimizeRouteImports ::
  "nat \<Rightarrow> string \<Rightarrow> routes \<Rightarrow> string list \<Rightarrow> ImportsCache
     \<Rightarrow> (string list \<times> routes \<times> ImportsCache) result" where
  "optimizeRouteImports 0 routeId routes parentImports importsCache = None"
| "optimizeRouteImports (Suc fuel) routeId routes parentImports importsCache =
     (case importsCache routeId of
        Some cached \<Rightarrow> Some (Inr (cached, routes, importsCache))
      | None \<Rightarrow>
          (case map_of routes routeId of
             None \<Rightarrow> Some (Inl TypeError)
           | Some route \<Rightarrow>
               (case (case parentId route of
                        None \<Rightarrow> Some (Inr (parentImports, routes, importsCache))
                      | Some p \<Rightarrow>
                          if p = [] then Some (Inr (parentImports, routes, importsCache))
                          else (case optimizeRouteImports fuel p routes parentImports importsCache of
                                  None \<Rightarrow> None
                                | Some (Inl e) \<Rightarrow> Some (Inl e)
                                | Some (Inr (pruned, routes1, cache1)) \<Rightarrow>
                                    Some (Inr (parentImports @ pruned, routes1, cache1)))) of
                  None \<Rightarrow> None
                | Some (Inl e) \<Rightarrow> Some (Inl e)
                | Some (Inr (parentImports1, routes1, cache1)) \<Rightarrow>
                    (let routeImports =
                           filter (\<lambda>url. url \<notin> set parentImports1) (imports_or_empty routes1 routeId)
                     in Some (Inr (routeImports,
                                   set_imports routeId routeImports routes1,
                                   cache1(routeId \<mapsto> routeImports)))))))"

text \<open>
  \<^verbatim>\<open>optimizeRoutes\<close> (lines 139--150): a fresh cache, then one call per key of
  \<open>routes\<close>, each starting from the entry point's imports. A throw ends the loop.
\<close>

fun optimizeRoutes_loop ::
  "nat \<Rightarrow> string list \<Rightarrow> routes \<Rightarrow> string list \<Rightarrow> ImportsCache
     \<Rightarrow> (routes \<times> ImportsCache) result" where
  "optimizeRoutes_loop fuel [] routes entryImports importsCache = Some (Inr (routes, importsCache))"
| "optimizeRoutes_loop fuel (key # keys) routes entryImports importsCache =
     (case optimizeRouteImports fuel key routes entryImports importsCache of
        None \<Rightarrow> None
      | Some (Inl e) \<Rightarrow> Some (Inl e)
      | Some (Inr (pruned, routes1, cache1)) \<Rightarrow>
          optimizeRoutes_loop fuel keys routes1 entryImports cache1)"

definition optimizeRoutes :: "nat \<Rightarrow> routes \<Rightarrow> string list \<Rightarrow> routes result" where
  "optimizeRoutes fuel routes entryImports =
     (case optimizeRoutes_loop fuel (map fst routes) routes entryImports Map.empty of
        None \<Rightarrow> None
      | Some (Inl e) \<Rightarrow> Some (Inl e)
      | Some (Inr (routes1, cache1)) \<Rightarrow> Some (Inr routes1))"

text \<open>
  The parent link the optimizer follows from a route id: the \<open>parentId\<close> of the route
  stored under it, when that is a non-empty string.
\<close>

definition parent_of :: "routes \<Rightarrow> string \<Rightarrow> string option" where
  "parent_of routes routeId =
     (case map_of routes routeId of
        None \<Rightarrow> None
      | Some route \<Rightarrow>
          (case parentId route of None \<Rightarrow> None | Some p \<Rightarrow> if p = [] then None else Some p))"

text \<open>The route id reached after \<open>n\<close> parent links, if the chain is that long.\<close>

fun ancestor :: "routes \<Rightarrow> nat \<Rightarrow> string \<Rightarrow> string option" where
  "ancestor routes 0 routeId = Some routeId"
| "ancestor routes (Suc n) routeId =
     (case parent_of routes routeId of None \<Rightarrow> None | Some p \<Rightarrow> ancestor routes n p)"

section \<open>Building the manifest\<close>

text \<open>
  What \<^verbatim>\<open>create\<close> reads of esbuild's \<^verbatim>\<open>Metafile["outputs"]\<close>: per emitted file, the
  entry point it was built from (if any) and its import edges with their kind.
\<close>

record output_import =
  im_path :: string
  im_kind :: string

record metafile_output =
  entryPoint :: "string option"
  imports_o :: "output_import list"

type_synonym outputs = "(string \<times> metafile_output) list"

text \<open>
  What \<^verbatim>\<open>create\<close> and \<^verbatim>\<open>write\<close> read of \<^verbatim>\<open>RemixConfig\<close> (the type is declared in
  \<^verbatim>\<open>../config\<close>): the route tree, keyed by route id, and three paths.
\<close>

record config_route =
  cr_id :: string
  cr_parentId :: "string option"
  cr_path :: "string option"
  cr_index :: "bool option"
  cr_caseSensitive :: "bool option"
  cr_file :: string

record config =
  c_routes :: "(string \<times> config_route) list"
  publicPath :: string
  assetsBuildDirectory :: string
  entryClientFilePath :: string

text \<open>
  The functions \<^verbatim>\<open>manifest.ts\<close> imports: Node's \<^verbatim>\<open>path\<close> module, \<^verbatim>\<open>getHash\<close> of
  \<^verbatim>\<open>./utils/crypto\<close> and \<^verbatim>\<open>getRouteModuleExports\<close> of \<^verbatim>\<open>./utils/routeExports\<close> (which
  reads the route's source and may fail). They are parameters of the model.
\<close>

record env =
  path_resolve :: "string \<Rightarrow> string"
  path_relative :: "string \<Rightarrow> string \<Rightarrow> string"
  path_join :: "string \<Rightarrow> string \<Rightarrow> string"
  path_dirname :: "string \<Rightarrow> string"
  getHash :: "string \<Rightarrow> string"
  getRouteModuleExports :: "config \<Rightarrow> string \<Rightarrow> error + string list"

text \<open>
  Modelled from the spec: the \<^verbatim>\<open>invariant\<close> helper of \<^verbatim>\<open>../invariant\<close>, which is not among
  the sources: a value that is missing is a fatal internal-consistency error carrying
  the message; otherwise the value is passed on.
\<close>

definition invariant :: "'a option \<Rightarrow> string \<Rightarrow> error + 'a" where
  "invariant v message = (case v of None \<Rightarrow> Inl (InvariantError message) | Some x \<Rightarrow> Inr x)"

record manifest_entry =
  module_e :: string
  imports_e :: "string list"

text \<open>
  \<^verbatim>\<open>createUrl\<close> (lines 133--135): \<^verbatim>\<open>path.win32.sep\<close> is the backslash, and
  \<^verbatim>\<open>split(sep).join("/")\<close> replaces each one by a slash.
\<close>

definition createUrl :: "string \<Rightarrow> string \<Rightarrow> string" where
  "createUrl publicPath' file = publicPath' @ map (\<lambda>c. if c = CHR 0x5C then CHR ''/'' else c) file"

definition resolveUrl :: "env \<Rightarrow> config \<Rightarrow> string \<Rightarrow> string" where
  "resolveUrl env config outputPath =
     createUrl (publicPath config)
       (path_relative env (assetsBuildDirectory config) (path_resolve env outputPath))"

definition resolveImports :: "env \<Rightarrow> config \<Rightarrow> output_import list \<Rightarrow> string list" where
  "resolveImports env config ims =
     map (\<lambda>im. resolveUrl env config (im_path im))
       (filter (\<lambda>im. im_kind im = ''import-statement'') ims)"

text \<open>\<^verbatim>\<open>routesByFile\<close> (lines 39--49): the routes of the config grouped by source file.\<close>

definition routesByFile :: "config \<Rightarrow> (string \<rightharpoonup> config_route list)" where
  "routesByFile config =
     foldl (\<lambda>m (key, route).
              m(cr_file route \<mapsto> (case m (cr_file route) of
                                     Some grouped \<Rightarrow> grouped @ [route]
                                   | None \<Rightarrow> [route])))
       Map.empty (c_routes config)"

text \<open>
  \<^verbatim>\<open>output.entryPoint.replace(/(^browser-route-module:|\?browser$)/g, "")\<close>: the prefix
  is removed at the start, then the suffix at the end of what follows.
\<close>

definition route_module_prefix :: string where
  "route_module_prefix = ''browser-route-module:''"

definition browser_suffix :: string where
  "browser_suffix = ''?browser''"

definition startsWith :: "string \<Rightarrow> string \<Rightarrow> bool" where
  "startsWith s pre = (take (length pre) s = pre)"

definition endsWith :: "string \<Rightarrow> string \<Rightarrow> bool" where
  "endsWith s suf = (length suf \<le> length s \<and> drop (length s - length suf) s = suf)"

definition entryPointFile :: "string \<Rightarrow> string" where
  "entryPointFile ep =
     (let rest = (if startsWith ep route_module_prefix then drop (length route_module_prefix) ep else ep)
      in if endsWith rest browser_suffix then take (length rest - length browser_suffix) rest
         else rest)"

text \<open>
  Lines 74--89: one manifest route per route of the group. \<^verbatim>\<open>routes[route.id] = ...\<close>
  replaces the value of a key that is there and appends a new key otherwise.
\<close>

fun add_routes ::
  "env \<Rightarrow> config \<Rightarrow> string \<Rightarrow> metafile_output \<Rightarrow> config_route list \<Rightarrow> routes \<Rightarrow> error + routes" where
  "add_routes env config key out [] routes = Inr routes"
| "add_routes env config key out (route # groupedRoute) routes =
     (case getRouteModuleExports env config (cr_id route) of
        Inl e \<Rightarrow> Inl e
      | Inr sourceExports \<Rightarrow>
          add_routes env config key out groupedRoute
            (AList.update (cr_id route)
               \<lparr>id_r = cr_id route,
                parentId = cr_parentId route,
                path = cr_path route,
                index = cr_index route,
                caseSensitive = cr_caseSensitive route,
                module = resolveUrl env config key,
                imports_r = Some (resolveImports env config (imports_o out)),
                hasAction = (''action'' \<in> set sourceExports),
                hasLoader = (''loader'' \<in> set sourceExports),
                hasCatchBoundary = (''CatchBoundary'' \<in> set sourceExports),
                hasErrorBoundary = (''ErrorBoundary'' \<in> set sourceExports)\<rparr>
               routes))"

text \<open>
  The loop of lines 54--91 over the sorted keys; its state is \<open>entry\<close> and \<open>routes\<close>.
  \<^verbatim>\<open>!output.entryPoint\<close> holds for \<^verbatim>\<open>undefined\<close> and for the empty string.
\<close>

definition is_client_entry :: "env \<Rightarrow> config \<Rightarrow> metafile_output \<Rightarrow> bool" where
  "is_client_entry env config out =
     (case entryPoint out of
        None \<Rightarrow> False
      | Some ep \<Rightarrow> ep \<noteq> [] \<and> path_resolve env ep = entryClientFilePath config)"

fun create_loop ::
  "env \<Rightarrow> config \<Rightarrow> outputs \<Rightarrow> string list \<Rightarrow> manifest_entry option \<Rightarrow> routes
     \<Rightarrow> error + (manifest_entry option \<times> routes)" where
  "create_loop env config outs [] entry routes = Inr (entry, routes)"
| "create_loop env config outs (key # keys) entry routes =
     (case map_of outs key of
        None \<Rightarrow> Inl TypeError
      | Some out \<Rightarrow>
          (case entryPoint out of
             None \<Rightarrow> create_loop env config outs keys entry routes
           | Some ep \<Rightarrow>
               if ep = [] then create_loop env config outs keys entry routes
               else if path_resolve env ep = entryClientFilePath config then
                 create_loop env config outs keys
                   (Some \<lparr>module_e = resolveUrl env config key,
                          imports_e = resolveImports env config (imports_o out)\<rparr>)
                   routes
               else if startsWith ep route_module_prefix then
                 (case invariant (routesByFile config (entryPointFile ep))
                         (''Cannot get route(s) for entry point '' @ ep) of
                    Inl e \<Rightarrow> Inl e
                  | Inr groupedRoute \<Rightarrow>
                      (case add_routes env config key out groupedRoute routes of
                         Inl e \<Rightarrow> Inl e
                       | Inr routes1 \<Rightarrow> create_loop env config outs keys entry routes1))
               else create_loop env config outs keys entry routes))"

section \<open>Serialisation\<close>

text \<open>
  The values \<^verbatim>\<open>JSON.stringify\<close> writes. An object is its list of properties in property
  order; a property whose value is \<^verbatim>\<open>undefined\<close> is not written, which \<open>props\<close>
  models. Numbers are integers below \<open>10\<^sup>2\<^sup>1\<close> in absolute value, which print in
  plain decimal.
\<close>

datatype json =
    JNull
  | JBool bool
  | JNumber int
  | JString string
  | JArray "json list"
  | JObject "(string \<times> json) list"

fun props :: "(string \<times> json option) list \<Rightarrow> (string \<times> json) list" where
  "props [] = []"
| "props ((k, None) # ps) = props ps"
| "props ((k, Some v) # ps) = (k, v) # props ps"

definition hex_digit :: "nat \<Rightarrow> char" where
  "hex_digit n = ''0123456789abcdef'' ! (n mod 16)"

text \<open>The escapes of \<^verbatim>\<open>QuoteJSONString\<close>, on bytes.\<close>

definition escape_char :: "char \<Rightarrow> string" where
  "escape_char c =
     (if c = CHR 0x22 then [CHR 0x5C, CHR 0x22]
      else if c = CHR 0x5C then [CHR 0x5C, CHR 0x5C]
      else if c = CHR 0x08 then [CHR 0x5C, CHR ''b'']
      else if c = CHR 0x09 then [CHR 0x5C, CHR ''t'']
      else if c = CHR 0x0A then [CHR 0x5C, CHR ''n'']
      else if c = CHR 0x0C then [CHR 0x5C, CHR ''f'']
      else if c = CHR 0x0D then [CHR 0x5C, CHR ''r'']
      else if (of_char c :: nat) < 32 then
        [CHR 0x5C, CHR ''u'', CHR ''0'', CHR ''0'', hex_digit (of_char c div 16), hex_digit (of_char c)]
      else [c])"

definition quote :: "string \<Rightarrow> string" where
  "quote s = CHR 0x22 # concat (map escape_char s) @ [CHR 0x22]"

fun join :: "string \<Rightarrow> string list \<Rightarrow> string" where
  "join sep [] = []"
| "join sep [x] = x"
| "join sep (x # y # ys) = x @ sep @ join sep (y # ys)"

fun digits :: "nat \<Rightarrow> string" where
  "digits n = (if n < 10 then [hex_digit n] else digits (n div 10) @ [hex_digit (n mod 10)])"

definition show_int :: "int \<Rightarrow> string" where
  "show_int i = (if i < 0 then CHR ''-'' # digits (nat (- i)) else digits (nat i))"

fun JSON_stringify :: "json \<Rightarrow> string" where
  "JSON_stringify JNull = ''null''"
| "JSON_stringify (JBool b) = (if b then ''true'' else ''false'')"
| "JSON_stringify (JNumber n) = show_int n"
| "JSON_stringify (JString s) = quote s"
| "JSON_stringify (JArray xs) = ''['' @ join '','' (map JSON_stringify xs) @ '']''"
| "JSON_stringify (JObject ps) =
     ''{'' @ join '','' (map (\<lambda>p. quote (fst p) @ '':'' @ JSON_stringify (snd p)) ps) @ ''}''"

text \<open>The objects of the manifest, with their properties in the order \<^verbatim>\<open>create\<close> writes them.\<close>

definition strings_json :: "string list \<Rightarrow> json" where
  "strings_json urls = JArray (map JString urls)"

definition entry_json :: "manifest_entry \<Rightarrow> json" where
  "entry_json entry =
     JObject (props [(''module'', Some (JString (module_e entry))),
                     (''imports'', Some (strings_json (imports_e entry)))])"

definition route_json :: "route \<Rightarrow> json" where
  "route_json route =
     JObject (props [(''id'', Some (JString (id_r route))),
                     (''parentId'', map_option JString (parentId route)),
                     (''path'', map_option JString (path route)),
                     (''index'', map_option JBool (index route)),
                     (''caseSensitive'', map_option JBool (caseSensitive route)),
                     (''module'', Some (JString (module route))),
                     (''imports'', map_option strings_json (imports_r route)),
                     (''hasAction'', Some (JBool (hasAction route))),
                     (''hasLoader'', Some (JBool (hasLoader route))),
                     (''hasCatchBoundary'', Some (JBool (hasCatchBoundary route))),
                     (''hasErrorBoundary'', Some (JBool (hasErrorBoundary route)))])"

definition routes_json :: "routes \<Rightarrow> json" where
  "routes_json routes = JObject (map (\<lambda>(key, route). (key, route_json route)) routes)"

text \<open>\<^verbatim>\<open>fingerprintedValues\<close> (lines 97--101).\<close>

definition fingerprinted_json :: "manifest_entry \<Rightarrow> routes \<Rightarrow> string option \<Rightarrow> json" where
  "fingerprinted_json entry routes cssBundleHref =
     JObject (props [(''entry'', Some (entry_json entry)),
                     (''routes'', Some (routes_json routes)),
                     (''cssBundleHref'', map_option JString cssBundleHref)])"

text \<open>
  \<^verbatim>\<open>Manifest\<close>, as \<^verbatim>\<open>create\<close> returns it (lines 110--113) and \<^verbatim>\<open>write\<close> completes it.
  The hot-reload descriptor is any serialisable value.
\<close>

record manifest =
  m_entry :: manifest_entry
  m_routes :: routes
  m_cssBundleHref :: "string option"
  m_version :: string
  m_hmr :: "json option"
  m_url :: "string option"

definition manifest_json :: "manifest \<Rightarrow> json" where
  "manifest_json m =
     JObject (props [(''entry'', Some (entry_json (m_entry m))),
                     (''routes'', Some (routes_json (m_routes m))),
                     (''cssBundleHref'', map_option JString (m_cssBundleHref m)),
                     (''version'', Some (JString (m_version m))),
                     (''hmr'', m_hmr m),
                     (''url'', map_option JString (m_url m))])"

text \<open>
  \<^verbatim>\<open>create\<close> (lines 13--114). Its one argument is taken apart; \<open>outs\<close> is
  \<^verbatim>\<open>metafile.outputs\<close>. \<^verbatim>\<open>Object.keys(...).sort()\<close> orders the keys by code unit, which
  on byte strings is the lexicographic order of lists of characters.
\<close>

definition create ::
  "env \<Rightarrow> nat \<Rightarrow> config \<Rightarrow> outputs \<Rightarrow> string option \<Rightarrow> json option \<Rightarrow> manifest result" where
  "create env fuel config outs cssBundleHref hmr =
     (case create_loop env config outs (sort (map fst outs)) None [] of
        Inl e \<Rightarrow> Some (Inl e)
      | Inr (entry, routes) \<Rightarrow>
          (case invariant entry ''Missing output for entry point'' of
             Inl e \<Rightarrow> Some (Inl e)
           | Inr entry1 \<Rightarrow>
               (case optimizeRoutes fuel routes (imports_e entry1) of
                  None \<Rightarrow> None
                | Some (Inl e) \<Rightarrow> Some (Inl e)
                | Some (Inr routes1) \<Rightarrow>
                    (let version = take 8 (getHash env
                           (JSON_stringify (fingerprinted_json entry1 routes1 cssBundleHref)))
                     in Some (Inr \<lparr>m_entry = entry1, m_routes = routes1,
                                   m_cssBundleHref = cssBundleHref, m_version = version,
                                   m_hmr = hmr, m_url = None\<rparr>)))))"

section \<open>Writing the manifest\<close>

text \<open>
  The file system: the directories that exist and the contents of the files. Of the
  ways the host can refuse a write only the missing parent directory is modelled, the
  one \<^verbatim>\<open>writeFileSafe\<close> guards against; \<^verbatim>\<open>mkdir\<close> with \<^verbatim>\<open>recursive: true\<close> accepts a
  directory that exists.
\<close>

record fs =
  fs_dirs :: "string set"
  fs_files :: "string \<rightharpoonup> string"

definition mkdir_recursive :: "string \<Rightarrow> fs \<Rightarrow> error + fs" where
  "mkdir_recursive dir fs = Inr (fs\<lparr>fs_dirs := insert dir (fs_dirs fs)\<rparr>)"

definition writeFile :: "env \<Rightarrow> string \<Rightarrow> string \<Rightarrow> fs \<Rightarrow> error + fs" where
  "writeFile env file contents fs =
     (if path_dirname env file \<in> fs_dirs fs
      then Inr (fs\<lparr>fs_files := (fs_files fs)(file \<mapsto> contents)\<rparr>)
      else Inl ENOENT)"

text \<open>\<^verbatim>\<open>writeFileSafe\<close> (lines 127--131).\<close>

definition writeFileSafe :: "env \<Rightarrow> string \<Rightarrow> string \<Rightarrow> fs \<Rightarrow> error + (string \<times> fs)" where
  "writeFileSafe env file contents fs =
     (case mkdir_recursive (path_dirname env file) fs of
        Inl e \<Rightarrow> Inl e
      | Inr fs1 \<Rightarrow>
          (case writeFile env file contents fs1 of
             Inl e \<Rightarrow> Inl e
           | Inr fs2 \<Rightarrow> Inr (file, fs2)))"

text \<open>\<^verbatim>\<open>String.prototype.toUpperCase\<close> on ASCII, which is what a hexadecimal digest is.\<close>

definition toUpperCase :: "string \<Rightarrow> string" where
  "toUpperCase s =
     map (\<lambda>c. if CHR ''a'' \<le> c \<and> c \<le> CHR ''z'' then char_of (of_char c - (32::nat)) else c) s"

text \<open>
  \<^verbatim>\<open>write\<close> (lines 116--125), here \<open>write_manifest\<close>. It returns the manifest object
  it was given, whose \<open>url\<close> it has set before the file is written, and what became of
  the file system.
\<close>

definition manifest_filename :: "manifest \<Rightarrow> string" where
  "manifest_filename assetsManifest = ''manifest-'' @ toUpperCase (m_version assetsManifest) @ ''.js''"

definition write_manifest :: "env \<Rightarrow> config \<Rightarrow> manifest \<Rightarrow> fs \<Rightarrow> manifest \<times> (error + fs)" where
  "write_manifest env config assetsManifest fs =
     (let filename = manifest_filename assetsManifest;
          assetsManifest1 = assetsManifest\<lparr>m_url := Some (publicPath config @ filename)\<rparr>
      in (assetsManifest1,
          (case writeFileSafe env (path_join env (assetsBuildDirectory config) filename)
                  (''window.__remixManifest='' @ JSON_stringify (manifest_json assetsManifest1) @ '';'')
                  fs of
             Inl e \<Rightarrow> Inl e
           | Inr (file, fs1) \<Rightarrow> Inr fs1)))"

text \<open>
  Modelled from the spec: the build step that computes the manifest and hands it to the
  writer (section 5: the manifest of one build is fully computed before it is handed to
  the writer); the caller of \<^verbatim>\<open>create\<close> and \<^verbatim>\<open>write\<close> is not among the sources. A failure
  of \<^verbatim>\<open>create\<close> ends the build before the writer runs.
\<close>

definition build_manifest ::
  "env \<Rightarrow> nat \<Rightarrow> config \<Rightarrow> outputs \<Rightarrow> string option \<Rightarrow> json option \<Rightarrow> fs
     \<Rightarrow> ((error + manifest) \<times> fs) option" where
  "build_manifest env fuel config outs cssBundleHref hmr fs =
     (case create env fuel config outs cssBundleHref hmr of
        None \<Rightarrow> None
      | Some (Inl e) \<Rightarrow> Some (Inl e, fs)
      | Some (Inr assetsManifest) \<Rightarrow>
          (case write_manifest env config assetsManifest fs of
             (assetsManifest1, Inl e) \<Rightarrow> Some (Inl e, fs)
           | (assetsManifest1, Inr fs1) \<Rightarrow> Some (Inr assetsManifest1, fs1)))"

section \<open>Notions used in the statements and proofs\<close>

text \<open>
  The last steps of \<^verbatim>\<open>optimizeRouteImports\<close> (lines 168--179), once the parent's
  imports are known: filter, store in the route, store in the cache.
\<close>

definition finish :: "string \<Rightarrow> string list \<Rightarrow> routes \<Rightarrow> ImportsCache \<Rightarrow> (string list \<times> routes \<times> ImportsCache) result" where
  "finish k pI rs c = (let l = filter (\<lambda>url. url \<notin> set pI) (imports_or_empty rs k)
     in Some (Inr (l, set_imports k l rs, c(k \<mapsto> l))))"

text \<open>
  The URLs a route is filtered against, read off a cache: the entry point's imports and
  the cached (pruned) imports of the route's parent.
\<close>

definition covered :: "routes \<Rightarrow> string list \<Rightarrow> ImportsCache \<Rightarrow> string \<Rightarrow> string set" where
  "covered routes0 entryImports c k =
     set entryImports \<union>
     (case parent_of routes0 k of None \<Rightarrow> {}
      | Some p \<Rightarrow> (case c p of None \<Rightarrow> {} | Some lp \<Rightarrow> set lp))"

text \<open>
  The invariant of one pass over \<open>routes0\<close>: the keys are kept; a route that is not
  cached is untouched; a cached route differs from the original in its imports only,
  its parent is cached too, and the cached list is the original list filtered against
  \<open>covered\<close>.
\<close>

definition pass_inv :: "routes \<Rightarrow> string list \<Rightarrow> routes \<Rightarrow> ImportsCache \<Rightarrow> bool" where
  "pass_inv routes0 entryImports rs c \<longleftrightarrow>
     map fst rs = map fst routes0 \<and>
     (\<forall>k. c k = None \<longrightarrow> map_of rs k = map_of routes0 k) \<and>
     (\<forall>k l. c k = Some l \<longrightarrow>
        (\<exists>r0. map_of routes0 k = Some r0 \<and>
              map_of rs k = Some (r0\<lparr>imports_r := (if l = [] then None else Some l)\<rparr>)) \<and>
        (\<forall>p. parent_of routes0 k = Some p \<longrightarrow> c p \<noteq> None) \<and>
        l = filter (\<lambda>url. url \<notin> covered routes0 entryImports c k) (imports_or_empty routes0 k))"

text \<open>
  The pruned import list of a route, read off the routes a pass returns: the route's
  original list without the URLs of the entry point and of the parent's pruned list.
\<close>

definition pruned_of :: "routes \<Rightarrow> string list \<Rightarrow> routes \<Rightarrow> string \<Rightarrow> string list" where
  "pruned_of routes0 entryImports rs k =
     filter (\<lambda>url. url \<notin> set entryImports \<union>
                (case parent_of routes0 k of None \<Rightarrow> {} | Some p \<Rightarrow> set (imports_or_empty rs p)))
       (imports_or_empty routes0 k)"

text \<open>
  The pruned imports, after a pass, of the proper ancestors of a route: the routes reached
  from it by one or more parent links.
\<close>

definition ancestors_imports :: "routes \<Rightarrow> routes \<Rightarrow> string \<Rightarrow> string set" where
  "ancestors_imports routes routes' routeId =
     {url. \<exists>n a. 0 < n \<and> ancestor routes n routeId = Some a \<and> url \<in> set (imports_or_empty routes' a)}"

text \<open>The names of the properties of a serialised object.\<close>

fun json_keys :: "json \<Rightarrow> string list" where
  "json_keys (JObject ps) = map fst ps"
| "json_keys v = []"

text \<open>
  Every parent id that is not \<^verbatim>\<open>undefined\<close> names a route of the same map.
\<close>

definition parents_present :: "routes \<Rightarrow> bool" where
  "parents_present routes =
     list_all (\<lambda>(key, route). case parentId route of
                                 None \<Rightarrow> True
                               | Some p \<Rightarrow> p \<in> fst ` set routes) routes"

text \<open>
  Following parent links from a route id comes back to a route id already visited.
\<close>

definition revisits :: "routes \<Rightarrow> string \<Rightarrow> bool" where
  "revisits routes routeId \<longleftrightarrow>
     (\<exists>i j a. i < j \<and> ancestor routes i routeId = Some a \<and> ancestor routes j routeId = Some a)"

text \<open>Every cached route id has a parent chain that ends.\<close>

definition grounded :: "routes \<Rightarrow> ImportsCache \<Rightarrow> bool" where
  "grounded routes0 c \<longleftrightarrow> (\<forall>k l. c k = Some l \<longrightarrow> (\<exists>n. ancestor routes0 n k = None))"




text \<open>The version of the manifest a run of \<open>create\<close> returns, if it returns one.\<close>

definition result_version :: "manifest result \<Rightarrow> string result" where
  "result_version r =
     (case r of None \<Rightarrow> None | Some (Inl e) \<Rightarrow> Some (Inl e) | Some (Inr m) \<Rightarrow> Some (Inr (m_version m)))"

section \<open>Example manifests\<close>

text \<open>A manifest route with the given id, parent and imports; the other fields are fixed.\<close>

definition mk_route :: "string \<Rightarrow> string option \<Rightarrow> string list option \<Rightarrow> route" where
  "mk_route i p urls =
     \<lparr>id_r = i, parentId = p, path = None, index = None, caseSensitive = None,
      module = ''/build/'' @ i @ ''.js'', imports_r = urls,
      hasAction = False, hasLoader = False, hasCatchBoundary = False, hasErrorBoundary = False\<rparr>"

text \<open>
  A root layout and a child route whose bundles both repeat the entry point's imports
  \<open>/a.js\<close> and \<open>/b.js\<close>, before and after the optimizer.
\<close>

definition scenario_routes :: routes where
  "scenario_routes =
     [(''root'', mk_route ''root'' None (Some [''/a.js'', ''/b.js'', ''/c.js''])),
      (''child'', mk_route ''child'' (Some ''root'')
                   (Some [''/a.js'', ''/b.js'', ''/c.js'', ''/d.js'']))]"

definition scenario_pruned :: routes where
  "scenario_pruned =
     [(''root'', mk_route ''root'' None (Some [''/c.js''])),
      (''child'', mk_route ''child'' (Some ''root'') (Some [''/d.js'']))]"

text \<open>
  Three nested routes; each bundle lists what its ancestors list and one more URL. The
  entry point imports \<open>/e.js\<close>.
\<close>

definition chain_routes :: routes where
  "chain_routes =
     [(''a'', mk_route ''a'' None (Some [''/e.js'', ''/x.js''])),
      (''a/b'', mk_route ''a/b'' (Some ''a'') (Some [''/e.js'', ''/x.js'', ''/y.js''])),
      (''a/b/c'', mk_route ''a/b/c'' (Some ''a/b'')
                   (Some [''/e.js'', ''/x.js'', ''/y.js'', ''/z.js'']))]"

definition chain_pruned :: routes where
  "chain_pruned =
     [(''a'', mk_route ''a'' None (Some [''/x.js''])),
      (''a/b'', mk_route ''a/b'' (Some ''a'') (Some [''/y.js''])),
      (''a/b/c'', mk_route ''a/b/c'' (Some ''a/b'') (Some [''/x.js'', ''/z.js'']))]"

text \<open>A single root route that imports \<open>/c.js\<close>.\<close>

definition single_route :: routes where
  "single_route = [(''root'', mk_route ''root'' None (Some [''/c.js'']))]"

text \<open>A leaf whose bundle lists nothing that its parent and the entry point do not list.\<close>

definition leaf_routes :: routes where
  "leaf_routes =
     [(''root'', mk_route ''root'' None (Some [''/a.js'', ''/c.js''])),
      (''leaf'', mk_route ''leaf'' (Some ''root'') (Some [''/a.js'', ''/c.js'']))]"

definition leaf_pruned :: routes where
  "leaf_pruned =
     [(''root'', mk_route ''root'' None (Some [''/c.js''])),
      (''leaf'', mk_route ''leaf'' (Some ''root'') None)]"

text \<open>A route whose parent is not in the map.\<close>

definition dangling_routes :: routes where
  "dangling_routes = [(''child'', mk_route ''child'' (Some ''gone'') (Some [''/x.js'']))]"

text \<open>Two routes that name each other as parent.\<close>

definition cyclic_routes :: routes where
  "cyclic_routes =
     [(''p'', mk_route ''p'' (Some ''q'') (Some [''/x.js''])),
      (''q'', mk_route ''q'' (Some ''p'') (Some [''/y.js'']))]"

text \<open>
  A build: paths are resolved against \<open>/app\<close>, the digest has sixteen hexadecimal digits,
  the root route exports a loader and an error boundary. The bundler emitted the client
  entry, two route modules and a shared chunk.
\<close>

definition example_dirname :: "string \<Rightarrow> string" where
  "example_dirname p = rev (tl (dropWhile (\<lambda>c. c \<noteq> CHR ''/'') (rev p)))"

definition example_relative :: "string \<Rightarrow> string \<Rightarrow> string" where
  "example_relative from to =
     (if startsWith to (from @ ''/'') then drop (length from + 1) to else to)"

definition example_hash :: "string \<Rightarrow> string" where
  "example_hash s = (if even (length s) then ''3fa9c07e51d2b684'' else ''b17e04c92a6d35f8'')"

definition example_env :: env where
  "example_env =
     \<lparr>path_resolve = (\<lambda>p. ''/app/'' @ p),
      path_relative = example_relative,
      path_join = (\<lambda>dir file. dir @ ''/'' @ file),
      path_dirname = example_dirname,
      getHash = example_hash,
      getRouteModuleExports =
        (\<lambda>config routeId. if routeId = ''root'' then Inr [''default'', ''loader'', ''ErrorBoundary'']
                           else Inr [''default''])\<rparr>"

definition example_config :: config where
  "example_config =
     \<lparr>c_routes =
        [(''root'', \<lparr>cr_id = ''root'', cr_parentId = None, cr_path = Some [], cr_index = None,
                     cr_caseSensitive = None, cr_file = ''root.tsx''\<rparr>),
         (''routes/index'', \<lparr>cr_id = ''routes/index'', cr_parentId = Some ''root'', cr_path = None,
                     cr_index = Some True, cr_caseSensitive = None, cr_file = ''routes/index.tsx''\<rparr>)],
      publicPath = ''/build/'',
      assetsBuildDirectory = ''/app/public/build'',
      entryClientFilePath = ''/app/app/entry.client.tsx''\<rparr>"

definition static_import :: "string \<Rightarrow> output_import" where
  "static_import p = \<lparr>im_path = p, im_kind = ''import-statement''\<rparr>"

definition example_outputs :: outputs where
  "example_outputs =
     [(''public/build/root-B2.js'',
         \<lparr>entryPoint = Some ''browser-route-module:root.tsx?browser'',
          imports_o = [static_import ''public/build/_shared/chunk-1.js'',
                       static_import ''public/build/_shared/chunk-2.js'',
                       \<lparr>im_path = ''public/build/lazy-9.js'', im_kind = ''dynamic-import''\<rparr>]\<rparr>),
      (''public/build/entry.client-A1.js'',
         \<lparr>entryPoint = Some ''app/entry.client.tsx'',
          imports_o = [static_import ''public/build/_shared/chunk-1.js'']\<rparr>),
      (''public/build/_shared/chunk-1.js'', \<lparr>entryPoint = None, imports_o = []\<rparr>),
      (''public/build/routes/index-C3.js'',
         \<lparr>entryPoint = Some ''browser-route-module:routes/index.tsx?browser'',
          imports_o = [static_import ''public/build/_shared/chunk-1.js'',
                       static_import ''public/build/_shared/chunk-2.js'']\<rparr>)]"

text \<open>The same build with no output for the client entry, and an empty disk.\<close>

definition outputs_without_entry :: outputs where
  "outputs_without_entry =
     [(''public/build/root-B2.js'',
         \<lparr>entryPoint = Some ''browser-route-module:root.tsx?browser'',
          imports_o = [static_import ''public/build/_shared/chunk-1.js'']\<rparr>),
      (''public/build/_shared/chunk-1.js'', \<lparr>entryPoint = None, imports_o = []\<rparr>)]"

definition empty_fs :: fs where
  "empty_fs = \<lparr>fs_dirs = {}, fs_files = Map.empty\<rparr>"

text \<open>A hot-reload descriptor.\<close>

definition example_hmr :: json where
  "example_hmr = JObject [(''timestamp'', JNumber 1700000000000),
                          (''runtime'', JString ''/build/_shared/hmr-runtime.js'')]"

text \<open>The manifest \<open>create\<close> returns for the example build.\<close>

definition example_manifest :: "json option \<Rightarrow> manifest" where
  "example_manifest hmr =
     \<lparr>m_entry = \<lparr>module_e = ''/build/entry.client-A1.js'',
                 imports_e = [''/build/_shared/chunk-1.js'']\<rparr>,
      m_routes =
        [(''root'',
          \<lparr>id_r = ''root'', parentId = None, path = Some [], index = None, caseSensitive = None,
           module = ''/build/root-B2.js'', imports_r = Some [''/build/_shared/chunk-2.js''],
           hasAction = False, hasLoader = True, hasCatchBoundary = False, hasErrorBoundary = True\<rparr>),
         (''routes/index'',
          \<lparr>id_r = ''routes/index'', parentId = Some ''root'', path = None, index = Some True,
           caseSensitive = None, module = ''/build/routes/index-C3.js'', imports_r = None,
           hasAction = False, hasLoader = False, hasCatchBoundary = False,
           hasErrorBoundary = False\<rparr>)],
      m_cssBundleHref = None, m_version = ''3fa9c07e'', m_hmr = hmr, m_url = None\<rparr>"

section \<open>Properties of the optimizer\<close>

subsection \<open>The invariant of a pass\<close>

declare optimizeRouteImports.simps(2) [simp del]

lemma map_fst_set_imports: "map fst (set_imports k l rs) = map fst rs"
  unfolding set_imports_def by (induction rs) auto

lemma map_of_set_imports:
  "map_of (set_imports k l rs) k' =
     (if k' = k then map_option (\<lambda>r. r\<lparr>imports_r := (if l = [] then None else Some l)\<rparr>) (map_of rs k)
      else map_of rs k')"
  unfolding set_imports_def by (auto simp: map_of_map_entry split: option.splits)

lemma set_imports_same:
  "map_of rs k = Some r \<Longrightarrow> imports_r r = (if l = [] then None else Some l) \<Longrightarrow> set_imports k l rs = rs"
  unfolding set_imports_def by (induction rs) (auto)

text \<open>
  One step of \<open>optimizeRouteImports\<close>, with the test on the parent id folded into
  \<open>parent_of\<close> and the last steps into \<open>finish\<close>.
\<close>

lemma oRI_Suc:
  "optimizeRouteImports (Suc fuel) k rs pI c =
     (case c k of Some cached \<Rightarrow> Some (Inr (cached, rs, c))
      | None \<Rightarrow> (case map_of rs k of None \<Rightarrow> Some (Inl TypeError)
          | Some r \<Rightarrow> (case parent_of rs k of None \<Rightarrow> finish k pI rs c
              | Some p \<Rightarrow> (case optimizeRouteImports fuel p rs pI c of None \<Rightarrow> None
                   | Some (Inl e) \<Rightarrow> Some (Inl e)
                   | Some (Inr (lp, rs1, c1)) \<Rightarrow> finish k (pI @ lp) rs1 c1))))"
  by (auto simp: optimizeRouteImports.simps(2) parent_of_def finish_def split: option.splits sum.splits)

lemma pass_inv_parent_of:
  assumes "pass_inv routes0 e rs c"
  shows "parent_of rs k = parent_of routes0 k"
proof (cases "c k")
  case None
  with assms show ?thesis by (simp add: pass_inv_def parent_of_def)
next
  case (Some l)
  with assms obtain r0 where "map_of routes0 k = Some r0"
    "map_of rs k = Some (r0\<lparr>imports_r := (if l = [] then None else Some l)\<rparr>)"
    unfolding pass_inv_def by blast
  then show ?thesis by (simp add: parent_of_def)
qed

lemma pass_inv_cached_imports:
  assumes "pass_inv routes0 e rs c" "c k = Some l"
  shows "imports_or_empty rs k = l"
proof -
  from assms obtain r0 where "map_of rs k = Some (r0\<lparr>imports_r := (if l = [] then None else Some l)\<rparr>)"
    unfolding pass_inv_def by blast
  then show ?thesis by (simp add: imports_or_empty_def)
qed

text \<open>
  The last steps keep the invariant, also when the route was cached before: the list it
  then holds was filtered against the same URLs, and filtering it again changes nothing.
\<close>

lemma pass_inv_finish:
  assumes inv: "pass_inv routes0 e rs c"
    and k: "map_of routes0 k = Some r0"
    and par: "\<forall>p. parent_of routes0 k = Some p \<longrightarrow> c p \<noteq> None"
    and pI: "set pI = covered routes0 e c k"
    and fin: "finish k pI rs c = Some (Inr (l, rs', c'))"
  shows "pass_inv routes0 e rs' c' \<and> c' k = Some l \<and> c \<subseteq>\<^sub>m c'"
proof -
  define raw where "raw = imports_or_empty routes0 k"
  define P where "P = (\<lambda>url. url \<notin> set pI)"
  have l: "l = filter P (imports_or_empty rs k)" and rs': "rs' = set_imports k l rs"
    and c': "c' = c(k \<mapsto> l)"
    using fin by (auto simp: finish_def Let_def P_def)
  have l_raw: "l = filter P raw"
  proof (cases "c k")
    case None
    with inv have "map_of rs k = map_of routes0 k" by (simp add: pass_inv_def)
    then show ?thesis by (simp add: l raw_def imports_or_empty_def)
  next
    case (Some lk)
    with inv have "lk = filter (\<lambda>url. url \<notin> covered routes0 e c k) raw"
      unfolding pass_inv_def raw_def by blast
    then have "lk = filter P raw" by (simp add: P_def pI)
    moreover have "imports_or_empty rs k = lk" using pass_inv_cached_imports[OF inv Some] .
    ultimately show ?thesis by (simp add: l)
  qed
  have same: "c k = Some lk \<Longrightarrow> lk = l" for lk
  proof -
    assume a: "c k = Some lk"
    with inv have "lk = filter (\<lambda>url. url \<notin> covered routes0 e c k) raw"
      unfolding pass_inv_def raw_def by blast
    then show "lk = l" by (simp add: l_raw P_def pI)
  qed
  have cov: "covered routes0 e c' k' = covered routes0 e c k'" if "\<forall>p. parent_of routes0 k' = Some p \<longrightarrow> c p \<noteq> None" for k'
  proof (cases "parent_of routes0 k'")
    case None
    then show ?thesis by (simp add: covered_def)
  next
    case (Some p)
    with that obtain lp where lp: "c p = Some lp" by auto
    have "c' p = Some lp"
    proof (cases "p = k")
      case True
      with lp same show ?thesis by (simp add: c')
    next
      case False
      with lp show ?thesis by (simp add: c')
    qed
    with Some lp show ?thesis by (simp add: covered_def)
  qed
  have sub: "c \<subseteq>\<^sub>m c'"
    unfolding map_le_def c' using same by auto
  have mk: "map_of rs k = Some (r0\<lparr>imports_r := imports_r (the (map_of rs k))\<rparr>)"
  proof (cases "c k")
    case None
    with inv k show ?thesis by (simp add: pass_inv_def)
  next
    case (Some lk)
    with inv k show ?thesis unfolding pass_inv_def by fastforce
  qed
  have i1: "map fst rs' = map fst routes0"
    using inv by (simp add: rs' map_fst_set_imports pass_inv_def)
  have i2: "\<forall>k'. c' k' = None \<longrightarrow> map_of rs' k' = map_of routes0 k'"
    using inv by (auto simp: c' rs' map_of_set_imports pass_inv_def)
  have i3: "(\<exists>r0. map_of routes0 k' = Some r0 \<and>
              map_of rs' k' = Some (r0\<lparr>imports_r := (if l' = [] then None else Some l')\<rparr>)) \<and>
        (\<forall>p. parent_of routes0 k' = Some p \<longrightarrow> c' p \<noteq> None) \<and>
        l' = filter (\<lambda>url. url \<notin> covered routes0 e c' k') (imports_or_empty routes0 k')"
    if h: "c' k' = Some l'" for k' l'
  proof (cases "k' = k")
    case True
    then have ll: "l' = l" using h by (simp add: c')
    obtain y where "map_of rs k = Some (r0\<lparr>imports_r := y\<rparr>)" using mk by blast
    then have a: "map_of rs' k = Some (r0\<lparr>imports_r := (if l = [] then None else Some l)\<rparr>)"
      by (simp add: rs' map_of_set_imports)
    have b: "\<forall>p. parent_of routes0 k = Some p \<longrightarrow> c' p \<noteq> None"
      using par by (auto simp: c')
    have "covered routes0 e c' k = covered routes0 e c k" using cov par by blast
    then have "l = filter (\<lambda>url. url \<notin> covered routes0 e c' k) raw"
      using l_raw by (simp add: P_def pI)
    with a b k True ll show ?thesis by (simp add: raw_def)
  next
    case False
    then have ck: "c k' = Some l'" using h by (simp add: c')
    with inv have old: "(\<exists>r0. map_of routes0 k' = Some r0 \<and>
              map_of rs k' = Some (r0\<lparr>imports_r := (if l' = [] then None else Some l')\<rparr>))"
        "(\<forall>p. parent_of routes0 k' = Some p \<longrightarrow> c p \<noteq> None)"
        "l' = filter (\<lambda>url. url \<notin> covered routes0 e c k') (imports_or_empty routes0 k')"
      unfolding pass_inv_def by blast+
    have "covered routes0 e c' k' = covered routes0 e c k'" using cov old(2) by blast
    with old False show ?thesis by (auto simp: rs' map_of_set_imports c')
  qed
  have "pass_inv routes0 e rs' c'"
    unfolding pass_inv_def using i1 i2 i3 by blast
  then show ?thesis using sub by (simp add: c')
qed

lemma pass_inv_uncached_key:
  assumes "pass_inv routes0 e rs c" "c k = None"
  shows "map_of rs k = map_of routes0 k"
  using assms by (simp add: pass_inv_def)

text \<open>A call that returns keeps the invariant, caches its route and only adds to the cache.\<close>

lemma oRI_inv:
  "pass_inv routes0 e rs c \<Longrightarrow>
   optimizeRouteImports fuel k rs e c = Some (Inr (l, rs', c')) \<Longrightarrow>
   pass_inv routes0 e rs' c' \<and> c' k = Some l \<and> c \<subseteq>\<^sub>m c'"
proof (induction fuel arbitrary: k rs c l rs' c')
  case 0
  then show ?case by simp
next
  case (Suc fuel)
  note inv = Suc.prems(1) and run = Suc.prems(2)
  show ?case
  proof (cases "c k")
    case (Some cached)
    with run inv show ?thesis by (simp add: oRI_Suc)
  next
    case None
    with run obtain r where r: "map_of rs k = Some r"
      by (auto simp: oRI_Suc split: option.splits)
    then have r0: "map_of routes0 k = Some r"
      using pass_inv_uncached_key[OF inv None] by simp
    have par: "parent_of rs k = parent_of routes0 k" using pass_inv_parent_of[OF inv] .
    show ?thesis
    proof (cases "parent_of routes0 k")
      case nopar: None
      with run None r par have fin: "finish k e rs c = Some (Inr (l, rs', c'))"
        by (simp add: oRI_Suc)
      have "set e = covered routes0 e c k" using nopar by (simp add: covered_def)
      with pass_inv_finish[OF inv r0 _ _ fin] nopar show ?thesis by simp
    next
      case (Some p)
      with run None r par obtain lp rs1 c1 where
        rec: "optimizeRouteImports fuel p rs e c = Some (Inr (lp, rs1, c1))"
        and fin: "finish k (e @ lp) rs1 c1 = Some (Inr (l, rs', c'))"
        by (auto simp: oRI_Suc split: option.splits sum.splits)
      from Suc.IH[OF inv rec] have inv1: "pass_inv routes0 e rs1 c1"
        and cp: "c1 p = Some lp" and sub: "c \<subseteq>\<^sub>m c1" by simp_all
      have a: "\<forall>q. parent_of routes0 k = Some q \<longrightarrow> c1 q \<noteq> None" using Some cp by simp
      have b: "set (e @ lp) = covered routes0 e c1 k" using Some cp by (simp add: covered_def)
      from pass_inv_finish[OF inv1 r0 a b fin] sub show ?thesis
        by (auto intro: map_le_trans)
    qed
  qed
qed

lemma loop_inv:
  "pass_inv routes0 e rs c \<Longrightarrow>
   optimizeRoutes_loop fuel ks rs e c = Some (Inr (rs', c')) \<Longrightarrow>
   pass_inv routes0 e rs' c' \<and> set ks \<subseteq> dom c' \<and> c \<subseteq>\<^sub>m c'"
proof (induction ks arbitrary: rs c)
  case Nil
  then show ?case by simp
next
  case (Cons key ks)
  from Cons.prems(2) obtain l rs1 c1 where
    step: "optimizeRouteImports fuel key rs e c = Some (Inr (l, rs1, c1))"
    and rest: "optimizeRoutes_loop fuel ks rs1 e c1 = Some (Inr (rs', c'))"
    by (auto split: option.splits sum.splits)
  from oRI_inv[OF Cons.prems(1) step] have inv1: "pass_inv routes0 e rs1 c1"
    and ck: "c1 key = Some l" and sub: "c \<subseteq>\<^sub>m c1" by simp_all
  from Cons.IH[OF inv1 rest] have inv': "pass_inv routes0 e rs' c'"
    and ks: "set ks \<subseteq> dom c'" and sub': "c1 \<subseteq>\<^sub>m c'" by simp_all
  have "key \<in> dom c'" using ck sub' by (auto simp: map_le_def dom_def)
  with inv' ks sub sub' show ?case by (auto intro: map_le_trans)
qed

lemma pass_inv_init: "pass_inv routes0 e routes0 Map.empty"
  by (simp add: pass_inv_def)

text \<open>What a completed pass leaves in the routes, stated without the cache.\<close>

lemma optimizeRoutes_result:
  assumes run: "optimizeRoutes fuel routes0 e = Some (Inr rs')"
  shows "map fst rs' = map fst routes0"
    and "map_of routes0 k = Some r0 \<Longrightarrow>
           map_of rs' k = Some (r0\<lparr>imports_r :=
              (if pruned_of routes0 e rs' k = [] then None else Some (pruned_of routes0 e rs' k))\<rparr>)"
    and "map_of routes0 k = Some r0 \<Longrightarrow> parent_of routes0 k = Some p \<Longrightarrow> map_of routes0 p \<noteq> None"
    and "map_of routes0 k = None \<Longrightarrow> map_of rs' k = None"
    and "parent_of rs' k = parent_of routes0 k"
proof -
  from run obtain c' where loop:
    "optimizeRoutes_loop fuel (map fst routes0) routes0 e Map.empty = Some (Inr (rs', c'))"
    by (auto simp: optimizeRoutes_def split: option.splits sum.splits)
  from loop_inv[OF pass_inv_init loop] have inv: "pass_inv routes0 e rs' c'"
    and keys: "set (map fst routes0) \<subseteq> dom c'" by simp_all
  show "map fst rs' = map fst routes0" using inv by (simp add: pass_inv_def)
  show "parent_of rs' k = parent_of routes0 k" using pass_inv_parent_of[OF inv] .
  have dom0: "k' \<in> dom c' \<longleftrightarrow> map_of routes0 k' \<noteq> None" for k'
  proof
    assume "k' \<in> dom c'"
    then obtain l where "c' k' = Some l" by auto
    with inv show "map_of routes0 k' \<noteq> None" unfolding pass_inv_def by fastforce
  next
    assume "map_of routes0 k' \<noteq> None"
    then have "k' \<in> set (map fst routes0)" by (metis map_of_eq_None_iff set_map)
    with keys show "k' \<in> dom c'" by blast
  qed
  show "map_of rs' k = None" if "map_of routes0 k = None"
  proof -
    from that dom0[of k] have "c' k = None" by (cases "c' k") auto
    with inv that show ?thesis by (simp add: pass_inv_def)
  qed
  {
    assume k: "map_of routes0 k = Some r0"
    then obtain l where l: "c' k = Some l" using dom0[of k] by auto
    with inv have m: "\<exists>r0. map_of routes0 k = Some r0 \<and>
              map_of rs' k = Some (r0\<lparr>imports_r := (if l = [] then None else Some l)\<rparr>)"
      and pc: "\<forall>p. parent_of routes0 k = Some p \<longrightarrow> c' p \<noteq> None"
      and lf: "l = filter (\<lambda>url. url \<notin> covered routes0 e c' k) (imports_or_empty routes0 k)"
      unfolding pass_inv_def by blast+
    have "covered routes0 e c' k = set e \<union>
                (case parent_of routes0 k of None \<Rightarrow> {} | Some p \<Rightarrow> set (imports_or_empty rs' p))"
    proof (cases "parent_of routes0 k")
      case None
      then show ?thesis by (simp add: covered_def)
    next
      case (Some p)
      with pc obtain lp where lp: "c' p = Some lp" by auto
      from pass_inv_cached_imports[OF inv lp] Some lp show ?thesis by (simp add: covered_def)
    qed
    with lf have "l = pruned_of routes0 e rs' k" by (simp add: pruned_of_def)
    with m k show "map_of rs' k = Some (r0\<lparr>imports_r :=
              (if pruned_of routes0 e rs' k = [] then None else Some (pruned_of routes0 e rs' k))\<rparr>)"
      by simp
    {
      assume "parent_of routes0 k = Some p"
      with pc have "c' p \<noteq> None" by simp
      then show "map_of routes0 p \<noteq> None" using dom0[of p] by auto
    }
  }
qed

lemma optimizeRoutes_imports:
  assumes run: "optimizeRoutes fuel routes0 e = Some (Inr rs')" and k: "map_of routes0 k = Some r0"
  shows "imports_or_empty rs' k = pruned_of routes0 e rs' k"
  using optimizeRoutes_result(2)[OF run k] by (simp add: imports_or_empty_def)

subsection \<open>Ancestors\<close>

lemma ancestors_imports_root:
  "parent_of routes routeId = None \<Longrightarrow> ancestors_imports routes routes' routeId = {}"
proof -
  assume a: "parent_of routes routeId = None"
  have "ancestor routes n routeId = None" if "0 < n" for n
    using that a by (cases n) simp_all
  then show ?thesis by (auto simp: ancestors_imports_def)
qed

lemma parent_in_ancestors_imports:
  "parent_of routes routeId = Some p \<Longrightarrow>
     set (imports_or_empty routes' p) \<subseteq> ancestors_imports routes routes' routeId"
proof
  fix url
  assume p: "parent_of routes routeId = Some p" and u: "url \<in> set (imports_or_empty routes' p)"
  have "ancestor routes (Suc 0) routeId = Some p" using p by simp
  with u show "url \<in> ancestors_imports routes routes' routeId"
    unfolding ancestors_imports_def by blast
qed

subsection \<open>A second pass over the result of a first\<close>

text \<open>
  A completed pass is replayed on its own result: from the same cache, each call returns
  the same list and the same cache, and leaves the routes as they are.
\<close>

lemma finish_again:
  assumes fin: "finish k pI rs c = Some (Inr (l, rs1, c1))"
    and rF: "map_of rsF k = Some rF" "imports_r rF = (if l = [] then None else Some l)"
  shows "finish k pI rsF c = Some (Inr (l, rsF, c1))"
proof -
  have l: "l = filter (\<lambda>url. url \<notin> set pI) (imports_or_empty rs k)" and c1: "c1 = c(k \<mapsto> l)"
    using fin by (auto simp: finish_def Let_def)
  have "imports_or_empty rsF k = l" using rF by (simp add: imports_or_empty_def)
  moreover have "filter (\<lambda>url. url \<notin> set pI) l = l" by (subst l, subst l) simp
  ultimately have "filter (\<lambda>url. url \<notin> set pI) (imports_or_empty rsF k) = l" by simp
  moreover have "set_imports k l rsF = rsF" using rF by (rule set_imports_same)
  ultimately show ?thesis by (simp add: finish_def Let_def c1)
qed

lemma oRI_again:
  assumes final: "pass_inv routes0 e rsF cF"
  shows "pass_inv routes0 e rs c \<Longrightarrow>
         optimizeRouteImports fuel k rs e c = Some (Inr (l, rs1, c1)) \<Longrightarrow>
         c1 \<subseteq>\<^sub>m cF \<Longrightarrow>
         optimizeRouteImports fuel k rsF e c = Some (Inr (l, rsF, c1))"
proof (induction fuel arbitrary: k rs c l rs1 c1)
  case 0
  then show ?case by simp
next
  case (Suc fuel)
  note inv = Suc.prems(1) and run = Suc.prems(2) and sub = Suc.prems(3)
  show ?case
  proof (cases "c k")
    case (Some cached)
    with run show ?thesis by (simp add: oRI_Suc)
  next
    case None
    with run obtain r where r: "map_of rs k = Some r"
      by (auto simp: oRI_Suc split: option.splits)
    from oRI_inv[OF inv run] have c1k: "c1 k = Some l" by simp
    with sub have "cF k = Some l" by (auto simp: map_le_def dom_def)
    with final obtain r0 where
      rF: "map_of rsF k = Some (r0\<lparr>imports_r := (if l = [] then None else Some l)\<rparr>)"
      unfolding pass_inv_def by blast
    have rF2: "imports_r (r0\<lparr>imports_r := (if l = [] then None else Some l)\<rparr>)
                = (if l = [] then None else Some l)" by simp
    have parF: "parent_of rsF k = parent_of routes0 k" using pass_inv_parent_of[OF final] .
    have par: "parent_of rs k = parent_of routes0 k" using pass_inv_parent_of[OF inv] .
    show ?thesis
    proof (cases "parent_of routes0 k")
      case nopar: None
      with run None r par have fin: "finish k e rs c = Some (Inr (l, rs1, c1))"
        by (simp add: oRI_Suc)
      from finish_again[OF fin rF rF2] None rF parF nopar show ?thesis
        by (simp add: oRI_Suc)
    next
      case (Some p)
      with run None r par obtain lp rsa ca where
        rec: "optimizeRouteImports fuel p rs e c = Some (Inr (lp, rsa, ca))"
        and fin: "finish k (e @ lp) rsa ca = Some (Inr (l, rs1, c1))"
        by (auto simp: oRI_Suc split: option.splits sum.splits)
      from oRI_inv[OF inv rec] have inva: "pass_inv routes0 e rsa ca" and cp: "ca p = Some lp"
        by simp_all
      have r0k: "map_of routes0 k = Some r" using pass_inv_uncached_key[OF inv None] r by simp
      have "\<forall>q. parent_of routes0 k = Some q \<longrightarrow> ca q \<noteq> None" using Some cp by simp
      moreover have "set (e @ lp) = covered routes0 e ca k" using Some cp by (simp add: covered_def)
      ultimately have "ca \<subseteq>\<^sub>m c1" using pass_inv_finish[OF inva r0k _ _ fin] by simp
      then have "ca \<subseteq>\<^sub>m cF" using sub by (rule map_le_trans)
      from Suc.IH[OF inv rec this]
      have rec2: "optimizeRouteImports fuel p rsF e c = Some (Inr (lp, rsF, ca))" .
      from finish_again[OF fin rF rF2] None rF parF Some rec2 show ?thesis
        by (simp add: oRI_Suc)
    qed
  qed
qed

lemma loop_again:
  assumes final: "pass_inv routes0 e rsF cF"
  shows "pass_inv routes0 e rs c \<Longrightarrow>
         optimizeRoutes_loop fuel ks rs e c = Some (Inr (rsF, cF)) \<Longrightarrow>
         optimizeRoutes_loop fuel ks rsF e c = Some (Inr (rsF, cF))"
proof (induction ks arbitrary: rs c)
  case Nil
  then show ?case by simp
next
  case (Cons key ks)
  from Cons.prems(2) obtain l rs1 c1 where
    step: "optimizeRouteImports fuel key rs e c = Some (Inr (l, rs1, c1))"
    and rest: "optimizeRoutes_loop fuel ks rs1 e c1 = Some (Inr (rsF, cF))"
    by (auto split: option.splits sum.splits)
  from oRI_inv[OF Cons.prems(1) step] have inv1: "pass_inv routes0 e rs1 c1" by simp
  from loop_inv[OF inv1 rest] have "c1 \<subseteq>\<^sub>m cF" by simp
  from oRI_again[OF final Cons.prems(1) step this]
  have "optimizeRouteImports fuel key rsF e c = Some (Inr (l, rsF, c1))" .
  with Cons.IH[OF inv1 rest] show ?case by simp
qed

subsection \<open>No lookup of a missing route\<close>

lemma parents_present_parent_of:
  assumes "parents_present routes" "parent_of routes k = Some p"
  shows "map_of routes p \<noteq> None"
proof -
  from assms(2) obtain r where r: "map_of routes k = Some r" and p: "parentId r = Some p"
    by (auto simp: parent_of_def split: option.splits if_splits)
  from r have "(k, r) \<in> set routes" by (rule map_of_SomeD)
  with assms(1) p have "p \<in> fst ` set routes"
    by (auto simp: parents_present_def list_all_iff)
  then show ?thesis by (simp add: map_of_eq_None_iff)
qed

lemma finish_returns: "\<exists>l rs1 c1. finish k pI rs c = Some (Inr (l, rs1, c1))"
  by (simp add: finish_def Let_def)

lemma oRI_no_error:
  "pass_inv routes0 e rs c \<Longrightarrow> parents_present routes0 \<Longrightarrow> map_of routes0 k \<noteq> None \<Longrightarrow>
   optimizeRouteImports fuel k rs e c \<noteq> Some (Inl err)"
proof (induction fuel arbitrary: k err)
  case 0
  then show ?case by simp
next
  case (Suc fuel)
  note inv = Suc.prems(1) and pp = Suc.prems(2) and k = Suc.prems(3)
  show ?case
  proof (cases "c k")
    case (Some cached)
    then show ?thesis by (simp add: oRI_Suc)
  next
    case None
    with k obtain r where r: "map_of rs k = Some r"
      using pass_inv_uncached_key[OF inv None] by auto
    have par: "parent_of rs k = parent_of routes0 k" using pass_inv_parent_of[OF inv] .
    show ?thesis
    proof (cases "parent_of routes0 k")
      case nopar: None
      with None r par finish_returns[of k e rs c] show ?thesis by (auto simp: oRI_Suc)
    next
      case (Some p)
      from parents_present_parent_of[OF pp Some] have "map_of routes0 p \<noteq> None" .
      from Suc.IH[OF inv pp this]
      have noerr: "optimizeRouteImports fuel p rs e c \<noteq> Some (Inl err')" for err' .
      show ?thesis
      proof (cases "optimizeRouteImports fuel p rs e c")
        case rn: None
        with None r par Some show ?thesis by (simp add: oRI_Suc)
      next
        case (Some res)
        with noerr obtain lp rsa ca where "res = Inr (lp, rsa, ca)"
          by (cases res) auto
        with Some None r par \<open>parent_of routes0 k = Some p\<close> finish_returns[of k "e @ lp" rsa ca]
        show ?thesis by (auto simp: oRI_Suc)
      qed
    qed
  qed
qed

lemma loop_no_error:
  "pass_inv routes0 e rs c \<Longrightarrow> parents_present routes0 \<Longrightarrow>
   \<forall>k \<in> set ks. map_of routes0 k \<noteq> None \<Longrightarrow>
   optimizeRoutes_loop fuel ks rs e c \<noteq> Some (Inl err)"
proof (induction ks arbitrary: rs c)
  case Nil
  then show ?case by simp
next
  case (Cons key ks)
  have key: "map_of routes0 key \<noteq> None" using Cons.prems(3) by simp
  show ?case
  proof (cases "optimizeRouteImports fuel key rs e c")
    case None
    then show ?thesis by simp
  next
    case (Some res)
    with oRI_no_error[OF Cons.prems(1,2) key, of fuel] obtain l rs1 c1 where
      res: "res = Inr (l, rs1, c1)" by (cases res) auto
    from oRI_inv[OF Cons.prems(1)] Some res have "pass_inv routes0 e rs1 c1" by simp
    from Cons.IH[OF this Cons.prems(2)] Cons.prems(3) Some res show ?thesis by simp
  qed
qed

subsection \<open>Termination\<close>

lemma ancestor_add:
  "ancestor routes (m + n) k =
     (case ancestor routes m k of None \<Rightarrow> None | Some a \<Rightarrow> ancestor routes n a)"
  by (induction m arbitrary: k) (auto split: option.splits)

lemma ancestor_None_mono:
  "ancestor routes m k = None \<Longrightarrow> m \<le> n \<Longrightarrow> ancestor routes n k = None"
  using ancestor_add[of routes m "n - m" k] by simp

lemma ancestor_cong:
  "(\<And>k. parent_of rs k = parent_of routes0 k) \<Longrightarrow> ancestor rs n k = ancestor routes0 n k"
  by (induction n arbitrary: k) (auto split: option.splits)

text \<open>
  A call returns within the depth at which the parent chain ends, whatever the cache;
  from the empty cache it returns at no smaller depth.
\<close>

lemma oRI_returns:
  "ancestor rs fuel k = None \<Longrightarrow> optimizeRouteImports fuel k rs pI c \<noteq> None"
proof (induction fuel arbitrary: k)
  case 0
  then show ?case by simp
next
  case (Suc fuel)
  show ?case
  proof (cases "parent_of rs k")
    case None
    with finish_returns[of k pI rs c] show ?thesis
      by (auto simp: oRI_Suc split: option.splits)
  next
    case (Some p)
    with Suc.prems have "ancestor rs fuel p = None" by simp
    from Suc.IH[OF this] obtain res where res: "optimizeRouteImports fuel p rs pI c = Some res"
      by auto
    show ?thesis
    proof (cases res)
      case (Inl err)
      with res Some show ?thesis by (simp add: oRI_Suc split: option.splits)
    next
      case (Inr t)
      obtain lp rsa ca where "t = (lp, rsa, ca)" by (cases t) auto
      with Inr res Some finish_returns[of k "pI @ lp" rsa ca] show ?thesis
        by (auto simp: oRI_Suc split: option.splits)
    qed
  qed
qed

lemma oRI_empty_diverges:
  "ancestor rs fuel k \<noteq> None \<Longrightarrow> optimizeRouteImports fuel k rs pI Map.empty = None"
proof (induction fuel arbitrary: k)
  case 0
  then show ?case by simp
next
  case (Suc fuel)
  from Suc.prems obtain p where p: "parent_of rs k = Some p" and "ancestor rs fuel p \<noteq> None"
    by (auto split: option.splits)
  from Suc.IH[OF this(2)] have "optimizeRouteImports fuel p rs pI Map.empty = None" .
  moreover from p have "map_of rs k \<noteq> None" by (auto simp: parent_of_def split: option.splits)
  ultimately show ?case using p by (auto simp: oRI_Suc)
qed

lemma oRI_empty_returns_iff:
  "(optimizeRouteImports fuel k rs pI Map.empty \<noteq> None) = (ancestor rs fuel k = None)"
proof
  assume ret: "optimizeRouteImports fuel k rs pI Map.empty \<noteq> None"
  show "ancestor rs fuel k = None"
  proof (rule ccontr)
    assume "ancestor rs fuel k \<noteq> None"
    from oRI_empty_diverges[OF this] ret show False by simp
  qed
next
  assume "ancestor rs fuel k = None"
  then show "optimizeRouteImports fuel k rs pI Map.empty \<noteq> None" by (rule oRI_returns)
qed

text \<open>
  In a finite map a parent chain goes on for ever exactly when it revisits a route id.
\<close>

lemma revisits_endless:
  assumes "revisits routes k"
  shows "ancestor routes n k \<noteq> None"
proof -
  from assms obtain i j a where ij: "i < j" and ai: "ancestor routes i k = Some a"
    and aj: "ancestor routes j k = Some a" unfolding revisits_def by blast
  define d where "d = j - i"
  have d: "0 < d" "j = i + d" using ij by (simp_all add: d_def)
  have loop: "ancestor routes d a = Some a"
    using ancestor_add[of routes i d k] ai aj d by simp
  have many: "ancestor routes (m * d) a = Some a" for m
  proof (induction m)
    case 0
    then show ?case by simp
  next
    case (Suc m)
    have "ancestor routes (m * d + d) a = Some a"
      using ancestor_add[of routes "m * d" d a] Suc loop by simp
    then show ?case by (simp add: add.commute)
  qed
  have far: "ancestor routes (i + n * d) k = Some a"
    using ancestor_add[of routes i "n * d" k] ai many by simp
  have "n \<le> i + n * d" using d(1) by (cases d) auto
  with far ancestor_None_mono[of routes n k "i + n * d"] show ?thesis by auto
qed

lemma endless_revisits:
  assumes all: "\<And>n. ancestor routes n k \<noteq> None"
  shows "revisits routes k"
proof -
  define f where "f n = the (ancestor routes n k)" for n
  have fn: "ancestor routes n k = Some (f n)" for n
    using all[of n] by (auto simp: f_def)
  have "f n \<in> fst ` set routes" for n
  proof -
    have "ancestor routes (n + 1) k \<noteq> None" using all .
    then have "parent_of routes (f n) \<noteq> None"
      using ancestor_add[of routes n 1 k] fn by (auto split: option.splits)
    then have "map_of routes (f n) \<noteq> None" by (auto simp: parent_of_def split: option.splits)
    then show ?thesis by (simp add: map_of_eq_None_iff)
  qed
  then have "range f \<subseteq> fst ` set routes" by auto
  then have "finite (range f)" by (rule finite_subset) simp
  then have "\<not> inj f" using finite_imageD[of f UNIV] by auto
  then obtain i j where "i \<noteq> j" "f i = f j" unfolding inj_on_def by auto
  then consider "i < j" | "j < i" by linarith
  then show ?thesis
  proof cases
    case 1
    with fn[of i] fn[of j] \<open>f i = f j\<close> show ?thesis unfolding revisits_def by metis
  next
    case 2
    with fn[of i] fn[of j] \<open>f i = f j\<close> show ?thesis unfolding revisits_def by metis
  qed
qed

lemma revisits_iff_endless:
  "revisits routes k = (\<forall>n. ancestor routes n k \<noteq> None)"
  using revisits_endless endless_revisits by blast

text \<open>Only routes whose parent chain ends are ever cached.\<close>

lemma oRI_grounded:
  "pass_inv routes0 e rs c \<Longrightarrow> grounded routes0 c \<Longrightarrow>
   optimizeRouteImports fuel k rs e c = Some (Inr (l, rs1, c1)) \<Longrightarrow> grounded routes0 c1"
proof (induction fuel arbitrary: k l rs1 c1)
  case 0
  then show ?case by simp
next
  case (Suc fuel)
  note inv = Suc.prems(1) and gr = Suc.prems(2) and run = Suc.prems(3)
  show ?case
  proof (cases "c k")
    case (Some cached)
    with run gr show ?thesis by (simp add: oRI_Suc)
  next
    case None
    with run obtain r where r: "map_of rs k = Some r"
      by (auto simp: oRI_Suc split: option.splits)
    have par: "parent_of rs k = parent_of routes0 k" using pass_inv_parent_of[OF inv] .
    show ?thesis
    proof (cases "parent_of routes0 k")
      case nopar: None
      with run None r par have "c1 = c(k \<mapsto> l)"
        by (auto simp: oRI_Suc finish_def Let_def)
      moreover have "ancestor routes0 (Suc 0) k = None" using nopar by simp
      ultimately show ?thesis using gr unfolding grounded_def by (metis fun_upd_apply)
    next
      case (Some p)
      with run None r par obtain lp rsa ca where
        rec: "optimizeRouteImports fuel p rs e c = Some (Inr (lp, rsa, ca))"
        and fin: "finish k (e @ lp) rsa ca = Some (Inr (l, rs1, c1))"
        by (auto simp: oRI_Suc split: option.splits sum.splits)
      from Suc.IH[OF inv gr rec] have gra: "grounded routes0 ca" .
      from oRI_inv[OF inv rec] have "ca p = Some lp" by simp
      with gra obtain n where "ancestor routes0 n p = None" unfolding grounded_def by blast
      with Some have "ancestor routes0 (Suc n) k = None" by simp
      moreover have "c1 = ca(k \<mapsto> l)" using fin by (auto simp: finish_def Let_def)
      ultimately show ?thesis using gra unfolding grounded_def by (metis fun_upd_apply)
    qed
  qed
qed

lemma loop_grounded:
  "pass_inv routes0 e rs c \<Longrightarrow> grounded routes0 c \<Longrightarrow>
   optimizeRoutes_loop fuel ks rs e c = Some (Inr (rs', c')) \<Longrightarrow> grounded routes0 c'"
proof (induction ks arbitrary: rs c)
  case Nil
  then show ?case by simp
next
  case (Cons key ks)
  from Cons.prems(3) obtain l rs1 c1 where
    step: "optimizeRouteImports fuel key rs e c = Some (Inr (l, rs1, c1))"
    and rest: "optimizeRoutes_loop fuel ks rs1 e c1 = Some (Inr (rs', c'))"
    by (auto split: option.splits sum.splits)
  from oRI_inv[OF Cons.prems(1) step] have inv1: "pass_inv routes0 e rs1 c1" by simp
  from oRI_grounded[OF Cons.prems(1,2) step] have "grounded routes0 c1" .
  from Cons.IH[OF inv1 this rest] show ?case .
qed

lemma completed_pass_no_revisit:
  assumes run: "optimizeRoutes fuel routes e = Some (Inr routes')"
  shows "\<not> revisits routes k"
proof (cases "map_of routes k")
  case None
  then have "ancestor routes (Suc 0) k = None" by (simp add: parent_of_def)
  then show ?thesis using revisits_endless by blast
next
  case (Some r)
  from run obtain c' where loop:
    "optimizeRoutes_loop fuel (map fst routes) routes e Map.empty = Some (Inr (routes', c'))"
    by (auto simp: optimizeRoutes_def split: option.splits sum.splits)
  have "grounded routes Map.empty" by (simp add: grounded_def)
  from loop_grounded[OF pass_inv_init this loop] have gr: "grounded routes c'" .
  from loop_inv[OF pass_inv_init loop] have "set (map fst routes) \<subseteq> dom c'" by simp
  moreover from Some have "k \<in> set (map fst routes)"
    by (metis map_of_eq_None_iff option.distinct(1) set_map)
  ultimately obtain l where "c' k = Some l" by auto
  with gr obtain n where "ancestor routes n k = None" unfolding grounded_def by blast
  then show ?thesis using revisits_endless by blast
qed

lemma loop_returns:
  "pass_inv routes0 e rs c \<Longrightarrow> \<forall>k \<in> set ks. ancestor routes0 fuel k = None \<Longrightarrow>
   optimizeRoutes_loop fuel ks rs e c \<noteq> None"
proof (induction ks arbitrary: rs c)
  case Nil
  then show ?case by simp
next
  case (Cons key ks)
  have "ancestor rs fuel key = ancestor routes0 fuel key"
    using ancestor_cong[of rs routes0] pass_inv_parent_of[OF Cons.prems(1)] by blast
  with Cons.prems(2) have "ancestor rs fuel key = None" by simp
  from oRI_returns[OF this] obtain res where
    res: "optimizeRouteImports fuel key rs e c = Some res" by auto
  show ?case
  proof (cases res)
    case (Inl err)
    with res show ?thesis by simp
  next
    case (Inr t)
    obtain l rs1 c1 where t: "t = (l, rs1, c1)" by (cases t) auto
    from oRI_inv[OF Cons.prems(1)] res Inr t have "pass_inv routes0 e rs1 c1" by simp
    from Cons.IH[OF this] Cons.prems(2) res Inr t show ?thesis by simp
  qed
qed

lemma common_bound:
  "\<forall>k \<in> set ks. \<exists>n. ancestor routes n k = None \<Longrightarrow>
   \<exists>N. \<forall>k \<in> set ks. ancestor routes N k = None"
proof (induction ks)
  case Nil
  then show ?case by simp
next
  case (Cons key ks)
  then obtain N where N: "\<forall>k \<in> set ks. ancestor routes N k = None" by auto
  from Cons.prems obtain n where n: "ancestor routes n key = None" by auto
  have "\<forall>k \<in> set (key # ks). ancestor routes (max n N) k = None"
    using N n ancestor_None_mono[of routes _ _ "max n N"] by auto
  then show ?case by blast
qed

lemma acyclic_pass_returns:
  assumes "\<And>k. \<not> revisits routes k"
  shows "\<exists>fuel. optimizeRoutes fuel routes e \<noteq> None"
proof -
  from assms have "\<forall>k \<in> set (map fst routes). \<exists>n. ancestor routes n k = None"
    by (auto simp: revisits_iff_endless)
  from common_bound[OF this] obtain N where
    "\<forall>k \<in> set (map fst routes). ancestor routes N k = None" by blast
  from loop_returns[OF pass_inv_init this, of e]
  have "optimizeRoutes N routes e \<noteq> None"
    by (auto simp: optimizeRoutes_def split: option.splits sum.splits)
  then show ?thesis by blast
qed

text \<open>
  On a forest whose parents are all present a pass returns the pruned routes; a parent
  that is missing makes it throw.
\<close>

lemma optimizeRoutes_total:
  assumes "parents_present routes" "\<And>k. \<not> revisits routes k"
  shows "\<exists>fuel routes'. optimizeRoutes fuel routes e = Some (Inr routes')"
proof -
  from acyclic_pass_returns[OF assms(2), of e] obtain fuel res where
    res: "optimizeRoutes fuel routes e = Some res" by auto
  have "\<forall>k \<in> set (map fst routes). map_of routes k \<noteq> None"
    by (simp add: map_of_eq_None_iff)
  from loop_no_error[OF pass_inv_init assms(1) this, of fuel e]
  have "optimizeRoutes_loop fuel (map fst routes) routes e Map.empty \<noteq> Some (Inl err)" for err .
  then have "optimizeRoutes fuel routes e \<noteq> Some (Inl err)" for err
    by (auto simp: optimizeRoutes_def split: option.splits sum.splits)
  with res show ?thesis by (cases res) auto
qed

lemma dangling_parent_throws:
  "optimizeRoutes 2 dangling_routes [] = Some (Inl TypeError)"
  by code_simp

section \<open>Properties of the builder and the writer\<close>

lemma create_loop_keeps_entry:
  "create_loop env config outs keys entry routes = Inr (entry', routes') \<Longrightarrow>
   \<forall>key \<in> set keys. \<forall>out. map_of outs key = Some out \<longrightarrow> \<not> is_client_entry env config out \<Longrightarrow>
   entry' = entry"
proof (induction keys arbitrary: routes)
  case Nil
  then show ?case by simp
next
  case (Cons key keys)
  from Cons.prems(1) obtain out where out: "map_of outs key = Some out"
    by (auto split: option.splits)
  with Cons.prems(2) have nce: "\<not> is_client_entry env config out" by simp
  from Cons.prems(2) have rest:
    "\<forall>key \<in> set keys. \<forall>out. map_of outs key = Some out \<longrightarrow> \<not> is_client_entry env config out"
    by simp
  from Cons.prems(1) out nce obtain routes1 where
    "create_loop env config outs keys entry routes1 = Inr (entry', routes')"
    by (auto simp: is_client_entry_def split: option.splits if_splits sum.splits)
  from Cons.IH[OF this rest] show ?case .
qed




lemma create_version:
  assumes "create env fuel config outs cssBundleHref hmr = Some (Inr m)"
  shows "m_version m = take 8 (getHash env (JSON_stringify
           (fingerprinted_json (m_entry m) (m_routes m) (m_cssBundleHref m))))"
    and "m_hmr m = hmr" and "m_url m = None" and "m_cssBundleHref m = cssBundleHref"
  using assms
  by (auto simp: create_def Let_def split: sum.splits option.splits prod.splits)


lemma example_create:
  "create example_env 2 example_config example_outputs None None = Some (Inr (example_manifest None))"
  by code_simp


lemma create_loop_cong:
  "map_of outs1 = map_of outs2 \<Longrightarrow>
   create_loop env config outs1 keys entry routes = create_loop env config outs2 keys entry routes"
  by (induction keys arbitrary: entry routes) (auto split: option.splits sum.splits)

lemma sort_keys_eq:
  assumes "distinct (map fst outs1)" "distinct (map fst outs2)" "set outs1 = set outs2"
  shows "sort (map fst outs1) = sort (map fst outs2)"
proof (rule sorted_distinct_set_unique)
  show "set (sort (map fst outs1)) = set (sort (map fst outs2))" using assms(3) by simp
qed (simp_all add: assms)

lemma create_hmr:
  "result_version (create env fuel config outs cssBundleHref hmr)
     = result_version (create env fuel config outs cssBundleHref None)"
  by (auto simp: create_def result_version_def Let_def split: sum.splits option.splits prod.splits)

lemma create_outputs_order:
  assumes "distinct (map fst outs1)" "distinct (map fst outs2)" "set outs1 = set outs2"
  shows "create env fuel config outs1 cssBundleHref hmr = create env fuel config outs2 cssBundleHref hmr"
proof -
  have "map_of outs1 = map_of outs2" using assms by (simp add: map_of_inject_set)
  from create_loop_cong[OF this] sort_keys_eq[OF assms] show ?thesis
    by (simp add: create_def)
qed

section \<open>The claims\<close>

subsection \<open>C1: coverage\<close>

text \<open>
  C1: after the pass, no route keeps a URL of the entry point's import list or of the raw
  import list of any of its ancestors. The code misses this on three nested routes that
  share a chunk the entry point does not import. The recursive call of
  \<open>optimizeRouteImports\<close> returns the parent's pruned list only, so what the grandparent
  covers is lost on the way back: \<open>/x.js\<close> is removed from \<open>a/b\<close>, because its parent
  \<open>a\<close> lists it, and then kept on \<open>a/b/c\<close>, although \<open>a\<close> and the raw bundle of its own
  parent \<open>a/b\<close> list it.
\<close>

theorem coverage_missed_on_nested_routes:
  "optimizeRoutes 3 chain_routes [''/e.js''] = Some (Inr chain_pruned) \<and>
   ancestor chain_routes 1 ''a/b/c'' = Some ''a/b'' \<and>
   ancestor chain_routes 2 ''a/b/c'' = Some ''a'' \<and>
   ''/x.js'' \<in> set (imports_or_empty chain_routes ''a'') \<and>
   ''/x.js'' \<in> set (imports_or_empty chain_routes ''a/b'') \<and>
   ''/x.js'' \<notin> set (imports_or_empty chain_pruned ''a/b'') \<and>
   ''/x.js'' \<in> set (imports_or_empty chain_pruned ''a/b/c'')"
  by code_simp

subsection \<open>C2: no loss\<close>

text \<open>
  C2, as stated (the union of a route's pruned imports, its ancestors' pruned imports and
  the entry point's imports equals the route's raw import list, as a set), fails as soon
  as the entry point imports a URL that the route does not list: the union holds it, the
  raw list does not.
\<close>

theorem no_loss_counterexample:
  "optimizeRoutes 1 single_route [''/a.js''] = Some (Inr single_route) \<and>
   set (imports_or_empty single_route ''root'') \<union> ancestors_imports single_route single_route ''root''
       \<union> set [''/a.js'']
     \<noteq> set (imports_or_empty single_route ''root'')"
proof -
  have run: "optimizeRoutes 1 single_route [''/a.js''] = Some (Inr single_route)"
    by code_simp
  have "parent_of single_route ''root'' = None"
    by code_simp
  then have anc: "ancestors_imports single_route single_route ''root'' = {}"
    by (rule ancestors_imports_root)
  have "set (imports_or_empty single_route ''root'') \<union> set [''/a.js'']
          \<noteq> set (imports_or_empty single_route ''root'')"
    by code_simp
  with run anc show ?thesis by simp
qed

text \<open>
  C2, amended: for every route, the union of its pruned import list, the pruned import
  lists of all its ancestors and the entry point's import list contains the route's raw
  import list, and the pruned list holds nothing that the raw list does not. The union
  equals the raw list, as a set, exactly when the raw list holds the entry point's
  imports and the ancestors' pruned imports.
\<close>

theorem raw_imports_are_covered:
  assumes run: "optimizeRoutes fuel routes entryImports = Some (Inr routes')"
    and r: "map_of routes routeId = Some route"
  shows "set (imports_or_empty routes routeId) \<subseteq>
           set (imports_or_empty routes' routeId) \<union> ancestors_imports routes routes' routeId
             \<union> set entryImports \<and>
         set (imports_or_empty routes' routeId) \<subseteq> set (imports_or_empty routes routeId) \<and>
         (set (imports_or_empty routes' routeId) \<union> ancestors_imports routes routes' routeId
             \<union> set entryImports = set (imports_or_empty routes routeId))
           = (ancestors_imports routes routes' routeId \<union> set entryImports
                \<subseteq> set (imports_or_empty routes routeId))"
proof -
  note me = optimizeRoutes_imports[OF run r]
  have sub: "set (imports_or_empty routes' routeId) \<subseteq> set (imports_or_empty routes routeId)"
    unfolding me pruned_of_def by auto
  have sup: "set (imports_or_empty routes routeId) \<subseteq>
           set (imports_or_empty routes' routeId) \<union> ancestors_imports routes routes' routeId
             \<union> set entryImports"
  proof (cases "parent_of routes routeId")
    case None
    then show ?thesis unfolding me pruned_of_def by auto
  next
    case (Some p)
    have "set (imports_or_empty routes routeId) \<subseteq>
            set (imports_or_empty routes' routeId) \<union> set (imports_or_empty routes' p) \<union> set entryImports"
      unfolding me pruned_of_def using Some by auto
    with parent_in_ancestors_imports[OF Some, of routes'] show ?thesis by blast
  qed
  from sub sup show ?thesis by blast
qed

theorem raw_imports_are_covered_witness:
  "optimizeRoutes 2 scenario_routes [''/a.js'', ''/b.js''] = Some (Inr scenario_pruned) \<and>
   map_of scenario_routes ''child'' =
     Some (mk_route ''child'' (Some ''root'') (Some [''/a.js'', ''/b.js'', ''/c.js'', ''/d.js''])) \<and>
   set [''/a.js'', ''/b.js'', ''/c.js'', ''/d.js''] \<subseteq>
     set [''/d.js''] \<union> ancestors_imports scenario_routes scenario_pruned ''child''
       \<union> set [''/a.js'', ''/b.js''] \<and>
   set [''/d.js''] \<subseteq> set [''/a.js'', ''/b.js'', ''/c.js'', ''/d.js'']"
proof -
  have run: "optimizeRoutes 2 scenario_routes [''/a.js'', ''/b.js''] = Some (Inr scenario_pruned)"
    by code_simp
  have r: "map_of scenario_routes ''child'' =
     Some (mk_route ''child'' (Some ''root'') (Some [''/a.js'', ''/b.js'', ''/c.js'', ''/d.js'']))"
    by code_simp
  have vals: "imports_or_empty scenario_routes ''child'' = [''/a.js'', ''/b.js'', ''/c.js'', ''/d.js'']"
    "imports_or_empty scenario_pruned ''child'' = [''/d.js'']"
    by code_simp+
  from raw_imports_are_covered[OF run r] run r show ?thesis
    unfolding vals by blast
qed

subsection \<open>C3: idempotence\<close>

text \<open>
  C3: a second run of \<open>optimizeRoutes\<close> on the routes a first run returned, with the same
  entry imports, returns them unchanged (and needs no deeper recursion than the first).
\<close>

theorem optimizeRoutes_idempotent:
  assumes run: "optimizeRoutes fuel routes entryImports = Some (Inr routes')"
  shows "optimizeRoutes fuel routes' entryImports = Some (Inr routes')"
proof -
  from run obtain cF where loop:
    "optimizeRoutes_loop fuel (map fst routes) routes entryImports Map.empty = Some (Inr (routes', cF))"
    by (auto simp: optimizeRoutes_def split: option.splits sum.splits)
  from loop_inv[OF pass_inv_init loop] have final: "pass_inv routes entryImports routes' cF" by simp
  then have keys: "map fst routes' = map fst routes" by (simp add: pass_inv_def)
  from loop_again[OF final pass_inv_init loop]
  show ?thesis by (simp add: optimizeRoutes_def keys)
qed

theorem optimizeRoutes_idempotent_witness:
  "optimizeRoutes 3 chain_routes [''/e.js''] = Some (Inr chain_pruned) \<and>
   optimizeRoutes 3 chain_pruned [''/e.js''] = Some (Inr chain_pruned)"
proof -
  have run: "optimizeRoutes 3 chain_routes [''/e.js''] = Some (Inr chain_pruned)"
    by code_simp
  from optimizeRoutes_idempotent[OF run] run show ?thesis by simp
qed

subsection \<open>C4: the version is deterministic\<close>

text \<open>
  C4: two runs of \<open>create\<close> on the same configuration, the same bundler outputs (in
  whatever order the object enumerates its keys), the same stylesheet URL and the same
  source exports compute the same version (or fail alike), whatever the hot-reload
  descriptors; the version is a function of the entry point, the routes and the
  stylesheet URL alone, and setting the \<open>url\<close> in \<open>write\<close> leaves it as it is.
\<close>

theorem version_is_deterministic:
  assumes "distinct (map fst outs1)" "distinct (map fst outs2)" "set outs1 = set outs2"
  shows "result_version (create env fuel config outs1 cssBundleHref hmr1)
           = result_version (create env fuel config outs2 cssBundleHref hmr2) \<and>
         (\<forall>m. create env fuel config outs1 cssBundleHref hmr1 = Some (Inr m) \<longrightarrow>
            m_version m = take 8 (getHash env (JSON_stringify
               (fingerprinted_json (m_entry m) (m_routes m) (m_cssBundleHref m)))) \<and>
            m_version (fst (write_manifest env config m fs)) = m_version m)"
proof -
  have "result_version (create env fuel config outs1 cssBundleHref hmr1)
          = result_version (create env fuel config outs1 cssBundleHref None)"
    by (rule create_hmr)
  also have "\<dots> = result_version (create env fuel config outs2 cssBundleHref None)"
    using create_outputs_order[OF assms] by simp
  also have "\<dots> = result_version (create env fuel config outs2 cssBundleHref hmr2)"
    by (rule create_hmr[symmetric])
  finally have 1: "result_version (create env fuel config outs1 cssBundleHref hmr1)
           = result_version (create env fuel config outs2 cssBundleHref hmr2)" .
  have 2: "m_version (fst (write_manifest env config m fs)) = m_version m" for m
    by (simp add: write_manifest_def Let_def)
  from 1 2 create_version(1) show ?thesis by blast
qed

theorem version_is_deterministic_witness:
  "distinct (map fst example_outputs) \<and> distinct (map fst (rev example_outputs)) \<and>
   set example_outputs = set (rev example_outputs) \<and>
   create example_env 2 example_config example_outputs None None
     = Some (Inr (example_manifest None)) \<and>
   result_version (create example_env 2 example_config (rev example_outputs) None (Some example_hmr))
     = Some (Inr ''3fa9c07e'')"
proof -
  have d: "distinct (map fst example_outputs)" "distinct (map fst (rev example_outputs))"
    by (simp_all add: example_outputs_def)
  have s: "set example_outputs = set (rev example_outputs)" by simp
  have v: "result_version (Some (Inr (example_manifest None))) = Some (Inr ''3fa9c07e'')"
    by (simp add: result_version_def example_manifest_def)
  have "result_version (create example_env 2 example_config example_outputs None None)
          = result_version (create example_env 2 example_config (rev example_outputs) None
              (Some example_hmr))"
    using version_is_deterministic[OF d s, of example_env 2 example_config None None
        "Some example_hmr" empty_fs] by (rule conjunct1)
  with example_create d s v show ?thesis by simp
qed

subsection \<open>C5: an empty import list is left out\<close>

text \<open>
  C5: after a completed pass no route carries an empty import list: the \<open>imports\<close>
  field is absent exactly when the filtered list is empty, and the serialised route has
  an \<open>imports\<close> property exactly when it is not.
\<close>

theorem empty_imports_are_absent:
  assumes run: "optimizeRoutes fuel routes entryImports = Some (Inr routes')"
    and r': "map_of routes' routeId = Some route'"
  shows "imports_r route' \<noteq> Some [] \<and>
         (imports_r route' = None) = (pruned_of routes entryImports routes' routeId = []) \<and>
         (''imports'' \<in> set (json_keys (route_json route')))
            = (pruned_of routes entryImports routes' routeId \<noteq> [])"
proof -
  from r' optimizeRoutes_result(4)[OF run, of routeId]
  obtain r0 where r0: "map_of routes routeId = Some r0" by (cases "map_of routes routeId") auto
  from optimizeRoutes_result(2)[OF run r0] r'
  have eq: "route' = r0\<lparr>imports_r :=
              (if pruned_of routes entryImports routes' routeId = [] then None
               else Some (pruned_of routes entryImports routes' routeId))\<rparr>" by simp
  have keys: "(''imports'' \<in> set (json_keys (route_json x))) = (imports_r x \<noteq> None)" for x
    by (cases "parentId x"; cases "path x"; cases "index x"; cases "caseSensitive x"; cases "imports_r x")
       (simp_all add: route_json_def)
  show ?thesis unfolding keys by (simp add: eq)
qed

theorem empty_imports_are_absent_witness:
  "optimizeRoutes 2 leaf_routes [''/a.js''] = Some (Inr leaf_pruned) \<and>
   map_of leaf_pruned ''leaf'' = Some (mk_route ''leaf'' (Some ''root'') None) \<and>
   pruned_of leaf_routes [''/a.js''] leaf_pruned ''leaf'' = [] \<and>
   imports_r (mk_route ''leaf'' (Some ''root'') None) = None \<and>
   ''imports'' \<notin> set (json_keys (route_json (mk_route ''leaf'' (Some ''root'') None)))"
proof -
  have run: "optimizeRoutes 2 leaf_routes [''/a.js''] = Some (Inr leaf_pruned)"
    by code_simp
  have r: "map_of leaf_pruned ''leaf'' = Some (mk_route ''leaf'' (Some ''root'') None)"
    by code_simp
  have p: "pruned_of leaf_routes [''/a.js''] leaf_pruned ''leaf'' = []"
    by code_simp
  from empty_imports_are_absent[OF run r] run r p show ?thesis by simp
qed

subsection \<open>C6: a missing entry point is fatal\<close>

text \<open>
  C6: when no output is the entry point of the configured client entry file, \<open>create\<close>
  fails, a build writes no file, and if the loop over the outputs completes the error is
  the invariant error of line 93.
\<close>

theorem create_without_entry_fails:
  assumes none: "\<forall>(key, out) \<in> set outs. \<not> is_client_entry env config out"
  shows "\<exists>e. create env fuel config outs cssBundleHref hmr = Some (Inl e) \<and>
             build_manifest env fuel config outs cssBundleHref hmr fs = Some (Inl e, fs) \<and>
             ((\<exists>st. create_loop env config outs (sort (map fst outs)) None [] = Inr st)
                \<longrightarrow> e = InvariantError ''Missing output for entry point'')"
proof (cases "create_loop env config outs (sort (map fst outs)) None []")
  case (Inl e)
  then show ?thesis by (auto simp: create_def build_manifest_def)
next
  case (Inr st)
  obtain entry routes where st: "st = (entry, routes)" by (cases st) auto
  have "\<forall>key \<in> set (sort (map fst outs)). \<forall>out. map_of outs key = Some out
          \<longrightarrow> \<not> is_client_entry env config out"
    using none by (auto dest: map_of_SomeD)
  from create_loop_keeps_entry[OF _ this] Inr st have "entry = None" by simp
  with Inr st show ?thesis by (simp add: create_def build_manifest_def invariant_def)
qed

theorem create_without_entry_fails_witness:
  "list_all (\<lambda>(key, out). \<not> is_client_entry example_env example_config out) outputs_without_entry \<and>
   create example_env 2 example_config outputs_without_entry None None
     = Some (Inl (InvariantError ''Missing output for entry point'')) \<and>
   build_manifest example_env 2 example_config outputs_without_entry None None empty_fs
     = Some (Inl (InvariantError ''Missing output for entry point''), empty_fs)"
proof -
  have h: "\<forall>(key, out) \<in> set outputs_without_entry. \<not> is_client_entry example_env example_config out"
    by (simp add: outputs_without_entry_def is_client_entry_def example_env_def example_config_def)
  have c: "create example_env 2 example_config outputs_without_entry None None
     = Some (Inl (InvariantError ''Missing output for entry point''))"
    by code_simp
  from create_without_entry_fails[OF h, of 2 None None empty_fs] h c show ?thesis
    by (auto simp: list_all_iff)
qed

subsection \<open>C7: the written file\<close>



subsection \<open>C8: order preservation\<close>

text \<open>
  C8: the optimizer only removes URLs and never reorders: after a completed pass the
  import list of every route is a subsequence of its raw import list.
\<close>

theorem optimizer_preserves_order:
  assumes "optimizeRoutes fuel routes entryImports = Some (Inr routes')"
  shows "subseq (imports_or_empty routes' routeId) (imports_or_empty routes routeId)"
proof (cases "map_of routes routeId")
  case None
  with optimizeRoutes_result(4)[OF assms] show ?thesis by (simp add: imports_or_empty_def)
next
  case (Some r0)
  from optimizeRoutes_imports[OF assms Some] show ?thesis by (simp add: pruned_of_def)
qed

theorem optimizer_preserves_order_witness:
  "optimizeRoutes 2 scenario_routes [''/a.js'', ''/b.js''] = Some (Inr scenario_pruned) \<and>
   subseq [''/d.js''] [''/a.js'', ''/b.js'', ''/c.js'', ''/d.js'']"
proof -
  have run: "optimizeRoutes 2 scenario_routes [''/a.js'', ''/b.js''] = Some (Inr scenario_pruned)"
    by code_simp
  have "imports_or_empty scenario_pruned ''child'' = [''/d.js'']"
    "imports_or_empty scenario_routes ''child'' = [''/a.js'', ''/b.js'', ''/c.js'', ''/d.js'']"
    by (simp_all add: imports_or_empty_def scenario_pruned_def scenario_routes_def mk_route_def)
  with optimizer_preserves_order[OF run, of "''child''"] run show ?thesis by simp
qed

subsection \<open>C10: the parent lookup\<close>

text \<open>
  C10: when every parent id that is set names a route of the same map, no call of a pass
  looks up a missing route: \<open>optimizeRoutes\<close> never throws.
\<close>

theorem parent_lookup_never_fails:
  assumes "parents_present routes"
  shows "optimizeRoutes fuel routes entryImports \<noteq> Some (Inl err)"
proof -
  have "\<forall>k \<in> set (map fst routes). map_of routes k \<noteq> None"
    by (simp add: map_of_eq_None_iff)
  from loop_no_error[OF pass_inv_init assms this, of fuel entryImports]
  have "optimizeRoutes_loop fuel (map fst routes) routes entryImports Map.empty \<noteq> Some (Inl err')"
    for err' .
  then show ?thesis
    by (auto simp: optimizeRoutes_def split: option.splits sum.splits)
qed

theorem parent_lookup_never_fails_witness:
  "parents_present chain_routes \<and>
   optimizeRoutes 3 chain_routes [''/e.js''] = Some (Inr chain_pruned) \<and>
   optimizeRoutes 3 chain_routes [''/e.js''] \<noteq> Some (Inl TypeError)"
proof -
  have pp: "parents_present chain_routes"
    by (simp add: parents_present_def chain_routes_def mk_route_def)
  have "optimizeRoutes 3 chain_routes [''/e.js''] = Some (Inr chain_pruned)"
    by code_simp
  with parent_lookup_never_fails[OF pp, of 3 "[''/e.js'']" TypeError] pp show ?thesis by simp
qed

subsection \<open>C9: termination\<close>

text \<open>
  C9: started with the empty cache, the recursion of \<open>optimizeRouteImports\<close> returns (or
  throws) at some depth of recursion exactly when following parent links from the route
  id never comes back to a route id already visited; on a chain that does, it returns at
  no depth, so the cache write is never reached. When no chain of the map revisits a
  route the whole pass ends, and a pass that completes proves that none does. A parent
  link is a parent id that the code follows (set, and not the empty string); a chain also
  ends at an id that names no route, where the call throws. The model has no bound on the
  call stack: recursion without end is divergence.
\<close>

theorem optimizer_terminates_iff_acyclic:
  "((\<exists>fuel. optimizeRouteImports fuel routeId routes parentImports Map.empty \<noteq> None)
      = (\<not> revisits routes routeId)) \<and>
   ((\<forall>k. \<not> revisits routes k) \<longrightarrow> (\<exists>fuel. optimizeRoutes fuel routes parentImports \<noteq> None)) \<and>
   ((\<exists>fuel routes'. optimizeRoutes fuel routes parentImports = Some (Inr routes'))
      \<longrightarrow> (\<forall>k. \<not> revisits routes k))"
proof (intro conjI impI)
  show "(\<exists>fuel. optimizeRouteImports fuel routeId routes parentImports Map.empty \<noteq> None)
      = (\<not> revisits routes routeId)"
    unfolding oRI_empty_returns_iff revisits_iff_endless by auto
next
  assume "\<forall>k. \<not> revisits routes k"
  then show "\<exists>fuel. optimizeRoutes fuel routes parentImports \<noteq> None"
    using acyclic_pass_returns by blast
next
  assume "\<exists>fuel routes'. optimizeRoutes fuel routes parentImports = Some (Inr routes')"
  then show "\<forall>k. \<not> revisits routes k"
    using completed_pass_no_revisit by blast
qed

theorem optimizer_terminates_iff_acyclic_witness:
  "ancestor cyclic_routes 0 ''p'' = Some ''p'' \<and> ancestor cyclic_routes 2 ''p'' = Some ''p'' \<and>
   (\<forall>fuel. optimizeRouteImports fuel ''p'' cyclic_routes [] Map.empty = None) \<and>
   optimizeRoutes 3 chain_routes [''/e.js''] = Some (Inr chain_pruned) \<and>
   \<not> revisits chain_routes ''a/b/c''"
proof -
  have a: "ancestor cyclic_routes 0 ''p'' = Some ''p''" "ancestor cyclic_routes 2 ''p'' = Some ''p''"
    by code_simp+
  then have "revisits cyclic_routes ''p''"
    unfolding revisits_def by (metis zero_less_numeral)
  with optimizer_terminates_iff_acyclic[of "''p''" cyclic_routes "[]"]
  have b: "\<forall>fuel. optimizeRouteImports fuel ''p'' cyclic_routes [] Map.empty = None"
    by blast
  have run: "optimizeRoutes 3 chain_routes [''/e.js''] = Some (Inr chain_pruned)"
    by code_simp
  with optimizer_terminates_iff_acyclic[of "''a/b/c''" chain_routes "[''/e.js'']"]
  have "\<not> revisits chain_routes ''a/b/c''" by blast
  with a b run show ?thesis by simp
qed

end
